theory Spec2Isabelle
  imports Main
begin

unbundle bit_operations_syntax

section \<open>Errors\<close>

text \<open>
  Every exception the modelled code can raise is a value. \<open>ParserError\<close> carries the
  offending buffer, as the source's \<^verbatim>\<open>ParserError(buffer, message=...)\<close> does. The others
  are Python's own: \<open>IndexError\<close> (list index out of range), \<open>StopIteration\<close>
  (\<^verbatim>\<open>next\<close> on an exhausted generator), \<open>OverflowError\<close> (\<^verbatim>\<open>int.to_bytes\<close>),
  \<open>UnboundLocalError\<close> (a local read before any assignment), and \<open>BufferError\<close>, the
  bounds error of the buffer abstraction.
\<close>

datatype error =
    ParserError "bool list"
  | BufferError
  | IndexError
  | StopIteration
  | OverflowError
  | UnboundLocalError

definition bind_err :: "error + 'a \<Rightarrow> ('a \<Rightarrow> error + 'b) \<Rightarrow> error + 'b" where
  "bind_err m f = (case m of Inl e \<Rightarrow> Inl e | Inr v \<Rightarrow> f v)"

section \<open>The bit buffer\<close>

text \<open>
  Modelled from the spec: the class \<^verbatim>\<open>Buffer\<close> of \<^verbatim>\<open>microschc.binary.buffer\<close> is not among
  the source files. The spec (sections 3 and 4.1) describes it as an immutable, ordered
  sequence of bits, MSB first, with backing bytes, an exact bit length and a padding side;
  its equality compares bits and bit length only and ignores the padding side. A buffer is
  therefore represented by its exact bit sequence, \<open>length\<close> is its bit length, and HOL
  equality is the spec's buffer equality. Backing bytes and padding side only enter at
  construction (\<open>Buffer_init\<close>).
\<close>

type_synonym Buffer = "bool list"

datatype Padding = LEFT | RIGHT

text \<open>The \<open>n\<close> low bits of an integer, most significant first.\<close>

fun int_bits :: "nat \<Rightarrow> int \<Rightarrow> bool list" where
  "int_bits 0 v = []"
| "int_bits (Suc n) v = int_bits n (v div 2) @ [odd v]"

definition bits_of_bytes :: "int list \<Rightarrow> bool list" where
  "bits_of_bytes content = concat (map (int_bits 8) content)"

text \<open>
  Modelled from the spec: construction from bytes, an explicit bit length and a padding
  side. The padding side says at which end of the backing bytes the bits that do not count
  stand: with \<open>LEFT\<close> the buffer is the last \<open>len\<close> bits of the bytes, with \<open>RIGHT\<close> the
  first \<open>len\<close> bits. Bytes that hold fewer than \<open>len\<close> bits are extended with zero bits on
  the padding side, so that the bit length is always \<open>len\<close>. The source leaves the padding
  side out in places; the default is taken to be \<open>LEFT\<close>, as the buffers of the test
  file need it (the 4-bit IPv6 version 6 is built from the byte \<open>0x06\<close>, the 20-bit flow
  label \<open>0xef2d\<close> from three bytes).
\<close>

definition Buffer_init :: "int list \<Rightarrow> nat \<Rightarrow> Padding \<Rightarrow> Buffer" where
  "Buffer_init content len padding =
     (let bs = bits_of_bytes content in
      case padding of
        LEFT \<Rightarrow> replicate (len - length bs) False @ drop (length bs - len) bs
      | RIGHT \<Rightarrow> take len bs @ replicate (len - length bs) False)"

text \<open>
  Modelled from the spec: \<open>slice(a, b)\<close> is the sub-buffer over the bit range \<open>[a, b)\<close> and
  fails with a bounds error when the range does not lie within the buffer (section 4.1,
  and \<open>BufferError\<close> in section 7: an out-of-bounds slice request). The open-ended form
  \<^verbatim>\<open>buffer[a:]\<close> runs to the end of the buffer.
\<close>

definition slice :: "Buffer \<Rightarrow> int \<Rightarrow> int \<Rightarrow> error + Buffer" where
  "slice buffer a b =
     (if 0 \<le> a \<and> a \<le> b \<and> b \<le> int (length buffer)
      then Inr (take (nat (b - a)) (drop (nat a) buffer))
      else Inl BufferError)"

definition slice_from :: "Buffer \<Rightarrow> int \<Rightarrow> error + Buffer" where
  "slice_from buffer a = slice buffer a (int (length buffer))"

text \<open>
  Modelled from the spec: \<open>to_unsigned_int\<close> (the source's \<^verbatim>\<open>value(type='unsigned int')\<close>) is
  the big-endian unsigned reading of the bits.
\<close>

definition to_unsigned_int :: "Buffer \<Rightarrow> int" where
  "to_unsigned_int buffer = foldl (\<lambda>acc b. 2 * acc + (if b then 1 else 0)) 0 buffer"

text \<open>
  Modelled from the spec: \<open>chunks(n, pad)\<close> is the sequence of \<open>n\<close>-bit sub-buffers; a final
  short chunk is extended with zero bits at its end when \<open>pad\<close> is set and is a bounds
  error otherwise. A chunk size of zero is a bounds error as well.
\<close>

function chunks_from :: "nat \<Rightarrow> bool \<Rightarrow> bool list \<Rightarrow> error + Buffer list" where
  "chunks_from n pad bs =
     (if bs = [] then Inr []
      else if n = 0 then Inl BufferError
      else if length bs < n then
        (if pad then Inr [bs @ replicate (n - length bs) False] else Inl BufferError)
      else bind_err (chunks_from n pad (drop n bs)) (\<lambda>cs. Inr (take n bs # cs)))"
  by pat_completeness auto
termination
  by (relation "measure (\<lambda>(n, pad, bs). length bs)") auto

declare chunks_from.simps [simp del]

definition chunks :: "Buffer \<Rightarrow> nat \<Rightarrow> bool \<Rightarrow> error + Buffer list" where
  "chunks buffer n pad = chunks_from n pad buffer"

section \<open>Python built-ins used by the source\<close>

text \<open>\<^verbatim>\<open>v.to_bytes(n, 'big')\<close>: raises \<open>OverflowError\<close> unless \<open>0 \<le> v < 256 ^ n\<close>.\<close>

definition to_bytes :: "int \<Rightarrow> nat \<Rightarrow> error + int list" where
  "to_bytes v n =
     (if v < 0 \<or> 256 ^ n \<le> v then Inl OverflowError
      else Inr (map (\<lambda>i. (v div 256 ^ i) mod 256) (rev [0..<n])))"

section \<open>Header descriptors\<close>

record FieldDescriptor =
  fd_id :: string
  fd_position :: int
  fd_value :: Buffer

record HeaderDescriptor =
  hd_id :: string
  hd_length :: int
  hd_fields :: "FieldDescriptor list"

definition UDP_HEADER_ID :: string where
  "UDP_HEADER_ID = ''UDP''"

definition UDP_SOURCE_PORT :: string where
  "UDP_SOURCE_PORT = UDP_HEADER_ID @ '':Source Port''"

definition UDP_DESTINATION_PORT :: string where
  "UDP_DESTINATION_PORT = UDP_HEADER_ID @ '':Destination Port''"

definition UDP_LENGTH :: string where
  "UDP_LENGTH = UDP_HEADER_ID @ '':Length''"

definition UDP_CHECKSUM :: string where
  "UDP_CHECKSUM = UDP_HEADER_ID @ '':Checksum''"

section \<open>The UDP parser\<close>

text \<open>\<^verbatim>\<open>UDPParser.parse\<close>, lines 33 to 73 of \<^verbatim>\<open>microschc/protocol/udp.py\<close>.\<close>

definition parse :: "Buffer \<Rightarrow> error + HeaderDescriptor" where
  "parse buffer =
     (if int (length buffer) < 64 then Inl (ParserError buffer)
      else
        bind_err (slice buffer 0 16) (\<lambda>source_port.
        bind_err (slice buffer 16 32) (\<lambda>destination_port.
        bind_err (slice buffer 32 48) (\<lambda>length_field.
        bind_err (slice buffer 48 64) (\<lambda>checksum.
          Inr \<lparr>hd_id = UDP_HEADER_ID, hd_length = 64,
               hd_fields =
                 [\<lparr>fd_id = UDP_SOURCE_PORT, fd_position = 0, fd_value = source_port\<rparr>,
                  \<lparr>fd_id = UDP_DESTINATION_PORT, fd_position = 0, fd_value = destination_port\<rparr>,
                  \<lparr>fd_id = UDP_LENGTH, fd_position = 0, fd_value = length_field\<rparr>,
                  \<lparr>fd_id = UDP_CHECKSUM, fd_position = 0, fd_value = checksum\<rparr>]\<rparr>)))))"

section \<open>The UDP compute functions\<close>

text \<open>
  \<^verbatim>\<open>_compute_length\<close>, lines 76 to 82. The third and fourth parameters are not used by
  the source. The length in octets is the bit length of the UDP header and payload divided
  by 8, rounded up.
\<close>

definition octets :: "nat \<Rightarrow> int" where
  "octets n = (if int n mod 8 = 0 then int n div 8 else int n div 8 + 1)"

definition compute_length ::
  "Buffer \<Rightarrow> int \<Rightarrow> (string \<times> Buffer) list \<Rightarrow> int \<Rightarrow> error + Buffer" where
  "compute_length packet field_cursor unused_fields unused_position =
     bind_err (slice_from packet (field_cursor - 32)) (\<lambda>udp_header_and_payload.
       let len = octets (length udp_header_and_payload) in
       bind_err (to_bytes len 2) (\<lambda>content. Inr (Buffer_init content 16 LEFT)))"

text \<open>
  The constants \<^verbatim>\<open>IPv6_HEADER_ID\<close>, \<^verbatim>\<open>IPV4_HEADER_ID\<close>, \<^verbatim>\<open>IPv6Fields.SRC_ADDRESS\<close> and
  \<^verbatim>\<open>IPv4Fields.SRC_ADDRESS\<close> come from modules that are not among the source files; the
  checksum function takes them as a parameter.
\<close>

record network_ids =
  IPv6_HEADER_ID :: string
  IPV4_HEADER_ID :: string
  IPv6_SRC_ADDRESS :: string
  IPv4_SRC_ADDRESS :: string

text \<open>Python's \<^verbatim>\<open>m in s\<close> on strings: \<open>m\<close> occurs in \<open>s\<close> as a contiguous substring.\<close>

fun str_contains :: "string \<Rightarrow> string \<Rightarrow> bool" where
  "str_contains m [] = (m = [])"
| "str_contains m (c # cs) = (take (length m) (c # cs) = m \<or> str_contains m cs)"

text \<open>
  Python's \<^verbatim>\<open>xs[i]\<close> on a list: a negative index counts from the end, and an index outside
  the list raises \<open>IndexError\<close>.
\<close>

definition py_index :: "'a list \<Rightarrow> int \<Rightarrow> error + 'a" where
  "py_index xs i =
     (if 0 \<le> i \<and> i < int (length xs) then Inr (xs ! nat i)
      else if - int (length xs) \<le> i \<and> i < 0 then Inr (xs ! nat (int (length xs) + i))
      else Inl IndexError)"

text \<open>
  Python's \<^verbatim>\<open>xs[p:0:-1]\<close> on a list: the elements at indices \<open>p, p - 1, ..., 1\<close>, after a
  negative \<open>p\<close> has been counted from the end and the result clipped to \<open>[-1, len - 1]\<close>.
  The element at index 0 is never part of it.
\<close>

definition py_slice_down :: "'a list \<Rightarrow> int \<Rightarrow> 'a list" where
  "py_slice_down xs p =
     (let n = int (length xs);
          start = (if p < 0 then max (p + n) (- 1) else min p (n - 1))
      in rev (drop 1 (take (nat (start + 1)) xs)))"

text \<open>
  \<^verbatim>\<open>next(offset for offset, field_id in enumerate(ys) if field_id == x)\<close>: the offset of
  the first element equal to \<open>x\<close>, counted from \<open>k\<close>; \<open>StopIteration\<close> when there is none.
\<close>

fun next_offset :: "'a \<Rightarrow> 'a list \<Rightarrow> nat \<Rightarrow> error + nat" where
  "next_offset x [] k = Inl StopIteration"
| "next_offset x (y # ys) k = (if y = x then Inr k else next_offset x ys (Suc k))"

text \<open>
  Lines 180 to 186 (IPv6) and 199 to 206 (IPv4): the address fields are located by the
  source-address id, the destination address being the field right after it, and the
  four parts are concatenated. \<open>width\<close> is the number of octets \<^verbatim>\<open>to_bytes\<close> is asked
  for: 4 in the IPv6 branch, 2 in the IPv4 branch; the buffer built from them is 16 bits
  long in both.
\<close>

definition build_pseudo_header ::
  "string \<Rightarrow> nat \<Rightarrow> string list \<Rightarrow> Buffer list \<Rightarrow> int \<Rightarrow> int \<Rightarrow> error + Buffer" where
  "build_pseudo_header src_address_id width fields_ids fields_values
       preceding_protocol_last_position udp_total_length =
     bind_err (next_offset src_address_id
                 (py_slice_down fields_ids preceding_protocol_last_position) 0)
       (\<lambda>source_address_offset.
     let source_address_position = preceding_protocol_last_position - int source_address_offset in
     bind_err (py_index fields_values source_address_position) (\<lambda>source_address.
     bind_err (py_index fields_values (source_address_position + 1)) (\<lambda>destination_address.
     bind_err (to_bytes udp_total_length width) (\<lambda>length_content.
       let pseudo_header_length = Buffer_init length_content 16 LEFT;
           pseudo_header_protocol_id = Buffer_init [0, 17] 16 LEFT
       in Inr (source_address @ destination_address @ pseudo_header_protocol_id
                 @ pseudo_header_length)))))"

text \<open>
  Lines 157 and 188: the dispatch on the id of the field at index
  \<open>rule_field_position - 4\<close>. When neither marker occurs in it, \<^verbatim>\<open>pseudo_header\<close> is
  never assigned and its first use at line 211 raises \<open>UnboundLocalError\<close>.
\<close>

definition pseudo_header ::
  "network_ids \<Rightarrow> string \<Rightarrow> string list \<Rightarrow> Buffer list \<Rightarrow> int \<Rightarrow> int \<Rightarrow> error + Buffer" where
  "pseudo_header ids preceding_protocol_last_field fields_ids fields_values
       preceding_protocol_last_position udp_total_length =
     (if str_contains (IPv6_HEADER_ID ids) preceding_protocol_last_field then
        build_pseudo_header (IPv6_SRC_ADDRESS ids) 4 fields_ids fields_values
          preceding_protocol_last_position udp_total_length
      else if str_contains (IPV4_HEADER_ID ids) preceding_protocol_last_field then
        build_pseudo_header (IPv4_SRC_ADDRESS ids) 2 fields_ids fields_values
          preceding_protocol_last_position udp_total_length
      else Inl UnboundLocalError)"

text \<open>
  One round of the summing loops (lines 212 to 214, 218 to 220, and 222 to 224 for the
  two partial sums): add, then fold the carry above bit 16 back into the low 16 bits.
\<close>

definition add_carry :: "int \<Rightarrow> int \<Rightarrow> int" where
  "add_carry acc v =
     (let s = acc + v; carry = drop_bit 16 s in (s + carry) AND 65535)"

definition chunks_checksum :: "Buffer list \<Rightarrow> int" where
  "chunks_checksum cs = foldl add_carry 0 (map to_unsigned_int cs)"

text \<open>Lines 226 and 229: the complement on 16 bits, and \<open>0xffff\<close> in place of zero.\<close>

definition complement16 :: "int \<Rightarrow> int" where
  "complement16 v = NOT v AND 65535"

definition zero_escape :: "int \<Rightarrow> int" where
  "zero_escape v = (if v = 0 then 65535 else v)"

text \<open>
  Lines 208 to 233: the checksum of a pseudo-header and the UDP header and payload, as a
  16-bit buffer. The chunks of the pseudo-header are taken without padding, those of the
  UDP header and payload with padding.
\<close>

definition checksum_of :: "Buffer \<Rightarrow> Buffer \<Rightarrow> error + Buffer" where
  "checksum_of ph udp_header_and_payload =
     bind_err (chunks ph 16 False) (\<lambda>pseudo_header_chunks.
     bind_err (chunks udp_header_and_payload 16 True) (\<lambda>payload_chunks.
       let pseudo_header_checksum = chunks_checksum pseudo_header_chunks;
           udp_header_and_payload_checksum = chunks_checksum payload_chunks;
           checksum_value = add_carry pseudo_header_checksum udp_header_and_payload_checksum;
           checksum_value = zero_escape (complement16 checksum_value)
       in bind_err (to_bytes checksum_value 2) (\<lambda>content.
            Inr (Buffer_init content 16 LEFT))))"

text \<open>\<^verbatim>\<open>_compute_checksum\<close>, lines 84 to 233.\<close>

definition compute_checksum ::
  "network_ids \<Rightarrow> Buffer \<Rightarrow> int \<Rightarrow> (string \<times> Buffer) list \<Rightarrow> int \<Rightarrow> error + Buffer" where
  "compute_checksum ids packet field_cursor decompressed_fields rule_field_position =
     (let fields_ids = map fst decompressed_fields;
          fields_values = map snd decompressed_fields;
          preceding_protocol_last_position = rule_field_position - 4
      in
      bind_err (py_index fields_ids preceding_protocol_last_position)
        (\<lambda>preceding_protocol_last_field.
      bind_err (slice_from packet (field_cursor - 48)) (\<lambda>udp_header_and_payload.
      let udp_total_length = octets (length udp_header_and_payload) in
      bind_err (pseudo_header ids preceding_protocol_last_field fields_ids fields_values
                  preceding_protocol_last_position udp_total_length) (\<lambda>ph.
        checksum_of ph udp_header_and_payload))))"

section \<open>Reference notions the claims are stated with\<close>

text \<open>
  The 16-bit one's complement sum (the sum with end-around carry) of a list of 16-bit
  words, in closed form: \<open>oc_norm\<close> maps a plain sum of zero to zero and any other plain
  sum to its representative in \<open>1..65535\<close> modulo 65535.
\<close>

definition oc_norm :: "int \<Rightarrow> int" where
  "oc_norm t = (if t = 0 then 0 else (t - 1) mod 65535 + 1)"

definition ones_complement_sum :: "int list \<Rightarrow> int" where
  "ones_complement_sum ws = oc_norm (sum_list ws)"

text \<open>
  The two branches of the dispatch at lines 157 and 188, named: which pseudo-header the
  id of the field at index \<open>rule_field_position - 4\<close> selects, if any.
\<close>

datatype pseudo_header_shape = IPv6_pseudo_header | IPv4_pseudo_header

definition selected_shape :: "network_ids \<Rightarrow> string \<Rightarrow> pseudo_header_shape option" where
  "selected_shape ids field_id =
     (if str_contains (IPv6_HEADER_ID ids) field_id then Some IPv6_pseudo_header
      else if str_contains (IPV4_HEADER_ID ids) field_id then Some IPv4_pseudo_header
      else None)"

text \<open>
  The selection as the spec words it (section 4.5, step 1): scan the ids of
  \<open>decompressed_fields\<close> backward from the rule position of the checksum field and take the
  first field found (the last one in rule order) whose id is in the IPv4 or the IPv6
  namespace; the namespace of that field names the shape.
\<close>

definition spec_enclosing_field :: "network_ids \<Rightarrow> string list \<Rightarrow> int \<Rightarrow> string option" where
  "spec_enclosing_field ids fields_ids rule_field_position =
     find (\<lambda>field_id. str_contains (IPv6_HEADER_ID ids) field_id
                        \<or> str_contains (IPV4_HEADER_ID ids) field_id)
       (rev (take (nat (rule_field_position + 1)) fields_ids))"

definition spec_selected_shape ::
  "network_ids \<Rightarrow> string list \<Rightarrow> int \<Rightarrow> pseudo_header_shape option" where
  "spec_selected_shape ids fields_ids rule_field_position =
     (case spec_enclosing_field ids fields_ids rule_field_position of
        None \<Rightarrow> None
      | Some field_id \<Rightarrow>
          if str_contains (IPv6_HEADER_ID ids) field_id then Some IPv6_pseudo_header
          else Some IPv4_pseudo_header)"

text \<open>
  The pseudo-headers as the spec words them (section 4.5, step 2): for IPv4, source,
  destination, a zero octet, protocol 17 and the UDP length on 16 bits; for IPv6, source,
  destination, the UDP length on 32 bits, 24 zero bits and next-header 17.
\<close>

definition spec_ipv4_pseudo_header :: "Buffer \<Rightarrow> Buffer \<Rightarrow> int \<Rightarrow> Buffer" where
  "spec_ipv4_pseudo_header source destination udp_length =
     source @ destination @ int_bits 8 0 @ int_bits 8 17 @ int_bits 16 udp_length"

definition spec_ipv6_pseudo_header :: "Buffer \<Rightarrow> Buffer \<Rightarrow> int \<Rightarrow> Buffer" where
  "spec_ipv6_pseudo_header source destination udp_length =
     source @ destination @ int_bits 32 udp_length @ replicate 24 False @ int_bits 8 17"

section \<open>Example inputs\<close>

text \<open>
  The UDP header of the packet in \<^verbatim>\<open>tests/decompressor/test_decompressor.py\<close> (source port
  \<open>0xd100\<close>, destination port \<open>0x1633\<close>, length \<open>0x0068\<close>, checksum \<open>0x5c21\<close>), followed
  by one payload octet, and the same header followed by two other octets.
\<close>

definition udp_example :: Buffer where
  "udp_example = bits_of_bytes [209, 0, 22, 51, 0, 104, 92, 33, 104]"

definition udp_example_other :: Buffer where
  "udp_example_other = bits_of_bytes [209, 0, 22, 51, 0, 104, 92, 33, 255, 1]"

text \<open>
  Values for the four constants of the network modules, following the pattern of the
  UDP ids (\<^verbatim>\<open>f'{UDP_HEADER_ID}:Source Port'\<close>).
\<close>

definition example_ids :: network_ids where
  "example_ids =
     \<lparr>IPv6_HEADER_ID = ''IPv6'', IPV4_HEADER_ID = ''IPv4'',
      IPv6_SRC_ADDRESS = ''IPv6:Source Address'',
      IPv4_SRC_ADDRESS = ''IPv4:Source Address''\<rparr>"

text \<open>
  A UDP datagram of nine octets (ports \<open>0xd100\<close> and \<open>0x1633\<close>, length 9, checksum field
  zero, payload \<open>0x68\<close>), and the same datagram with the checksum field set to \<open>0x2f54\<close>.
\<close>

definition udp_datagram :: Buffer where
  "udp_datagram = bits_of_bytes [209, 0, 22, 51, 0, 9, 0, 0, 104]"

definition udp_datagram_summed :: Buffer where
  "udp_datagram_summed = bits_of_bytes [209, 0, 22, 51, 0, 9, 47, 84, 104]"

text \<open>
  Decompressed fields in front of a UDP checksum field: over IPv4 (192.168.0.1 to
  192.168.0.2), over IPv6 (the addresses of the test packet), over IPv6 with a field of
  another layer between the addresses and the UDP fields, and over a layer that is
  neither.
\<close>

definition ipv4_fields :: "(string \<times> Buffer) list" where
  "ipv4_fields =
     [(''IPv4:Protocol'', int_bits 8 17),
      (''IPv4:Source Address'', bits_of_bytes [192, 168, 0, 1]),
      (''IPv4:Destination Address'', bits_of_bytes [192, 168, 0, 2]),
      (''UDP:Source Port'', int_bits 16 53504),
      (''UDP:Destination Port'', int_bits 16 5683),
      (''UDP:Length'', int_bits 16 9)]"

definition ipv6_source :: Buffer where
  "ipv6_source = bits_of_bytes [32, 1, 13, 184, 0, 10, 0, 0, 0, 0, 0, 0, 0, 0, 0, 2]"

definition ipv6_destination :: Buffer where
  "ipv6_destination = bits_of_bytes [32, 1, 13, 184, 0, 10, 0, 0, 0, 0, 0, 0, 0, 0, 0, 32]"

definition ipv6_fields :: "(string \<times> Buffer) list" where
  "ipv6_fields =
     [(''IPv6:Hop Limit'', int_bits 8 64),
      (''IPv6:Source Address'', ipv6_source),
      (''IPv6:Destination Address'', ipv6_destination),
      (''UDP:Source Port'', int_bits 16 53504),
      (''UDP:Destination Port'', int_bits 16 5683),
      (''UDP:Length'', int_bits 16 9)]"

definition ipv6_gap_fields :: "(string \<times> Buffer) list" where
  "ipv6_gap_fields =
     [(''IPv6:Hop Limit'', int_bits 8 64),
      (''IPv6:Source Address'', ipv6_source),
      (''IPv6:Destination Address'', ipv6_destination),
      (''Shim:Tag'', int_bits 8 1),
      (''UDP:Source Port'', int_bits 16 53504),
      (''UDP:Destination Port'', int_bits 16 5683),
      (''UDP:Length'', int_bits 16 9)]"

definition other_fields :: "(string \<times> Buffer) list" where
  "other_fields =
     [(''Shim:Tag'', int_bits 8 1),
      (''UDP:Source Port'', int_bits 16 53504),
      (''UDP:Destination Port'', int_bits 16 5683),
      (''UDP:Length'', int_bits 16 9)]"

text \<open>
  The packet that \<^verbatim>\<open>test_decompress\<close> expects (\<^verbatim>\<open>valid_stack_packet\<close>, lines 16 to 26 of
  \<^verbatim>\<open>tests/decompressor/test_decompressor.py\<close>), as octets.
\<close>

definition valid_stack_packet :: "int list" where
  "valid_stack_packet =
     [96, 0, 239, 45, 0, 104, 17, 64, 32, 1, 13, 184, 0, 10, 0, 0,
      0, 0, 0, 0, 0, 0, 0, 2, 32, 1, 13, 184, 0, 10, 0, 0,
      0, 0, 0, 0, 0, 0, 0, 32, 209, 0, 22, 51, 0, 104, 92, 33,
      104, 69, 34, 246, 184, 48, 14, 254, 230, 98, 145, 34, 193, 110, 255, 91,
      123, 34, 98, 110, 34, 58, 34, 47, 54, 47, 34, 44, 34, 110, 34, 58,
      34, 48, 47, 48, 34, 44, 34, 118, 34, 58, 53, 52, 46, 48, 125, 44,
      123, 34, 110, 34, 58, 34, 48, 47, 49, 34, 44, 34, 118, 34, 58, 52,
      56, 46, 48, 125, 44, 123, 34, 110, 34, 58, 34, 48, 47, 53, 34, 44,
      34, 118, 34, 58, 49, 54, 54, 54, 50, 54, 51, 51, 51, 57, 125, 93]"

text \<open>
  Decompressed fields whose first field is the IPv6 source address, and a packet of
  65536 zero octets after a 32-bit prefix.
\<close>

definition ipv6_first_fields :: "(string \<times> Buffer) list" where
  "ipv6_first_fields =
     [(''IPv6:Source Address'', ipv6_source),
      (''IPv6:Destination Address'', ipv6_destination),
      (''UDP:Source Port'', int_bits 16 53504),
      (''UDP:Destination Port'', int_bits 16 5683),
      (''UDP:Length'', int_bits 16 9)]"

definition oversized_packet :: Buffer where
  "oversized_packet = replicate 524320 False"

section \<open>Properties of the parser\<close>

lemma length_int_bits [simp]: "length (int_bits n v) = n"
  by (induction n arbitrary: v) auto

lemma slice_in_range:
  "0 \<le> a \<Longrightarrow> a \<le> b \<Longrightarrow> b \<le> int (length buffer) \<Longrightarrow>
   slice buffer a b = Inr (take (nat (b - a)) (drop (nat a) buffer))"
  by (simp add: slice_def)

lemma parse_long:
  assumes "64 \<le> length buffer"
  shows "parse buffer =
     Inr \<lparr>hd_id = ''UDP'', hd_length = 64,
          hd_fields =
            [\<lparr>fd_id = ''UDP:Source Port'', fd_position = 0, fd_value = take 16 buffer\<rparr>,
             \<lparr>fd_id = ''UDP:Destination Port'', fd_position = 0,
               fd_value = take 16 (drop 16 buffer)\<rparr>,
             \<lparr>fd_id = ''UDP:Length'', fd_position = 0, fd_value = take 16 (drop 32 buffer)\<rparr>,
             \<lparr>fd_id = ''UDP:Checksum'', fd_position = 0,
               fd_value = take 16 (drop 48 buffer)\<rparr>]\<rparr>"
  using assms
  by (simp add: parse_def bind_err_def slice_in_range UDP_HEADER_ID_def UDP_SOURCE_PORT_def
      UDP_DESTINATION_PORT_def UDP_LENGTH_def UDP_CHECKSUM_def)


lemma udp_example_bits:
  "udp_example =
     [True, True, False, True, False, False, False, True,
      False, False, False, False, False, False, False, False]
     @ [False, False, False, True, False, True, True, False,
        False, False, True, True, False, False, True, True]
     @ [False, False, False, False, False, False, False, False,
        False, True, True, False, True, False, False, False]
     @ [False, True, False, True, True, True, False, False,
        False, False, True, False, False, False, False, True]
     @ [False, True, True, False, True, False, False, False]"
  by (simp add: udp_example_def bits_of_bytes_def eval_nat_numeral)

lemma udp_example_other_bits:
  "udp_example_other =
     [True, True, False, True, False, False, False, True,
      False, False, False, False, False, False, False, False]
     @ [False, False, False, True, False, True, True, False,
        False, False, True, True, False, False, True, True]
     @ [False, False, False, False, False, False, False, False,
        False, True, True, False, True, False, False, False]
     @ [False, True, False, True, True, True, False, False,
        False, False, True, False, False, False, False, True]
     @ [True, True, True, True, True, True, True, True,
        False, False, False, False, False, False, False, True]"
  by (simp add: udp_example_other_def bits_of_bytes_def eval_nat_numeral)


text \<open>
  C7. For every buffer of at least 64 bits, \<open>UDPParser.parse\<close> returns a header
  descriptor with id \<open>UDP\<close>, length 64 and exactly four fields in the order source port,
  destination port, length, checksum, holding the bits \<open>[0,16)\<close>, \<open>[16,32)\<close>, \<open>[32,48)\<close> and
  \<open>[48,64)\<close> of the buffer, each at position 0.
\<close>

theorem parse_fields:
  assumes "64 \<le> length buffer"
  shows "parse buffer =
     Inr \<lparr>hd_id = ''UDP'', hd_length = 64,
          hd_fields =
            [\<lparr>fd_id = ''UDP:Source Port'', fd_position = 0, fd_value = take 16 buffer\<rparr>,
             \<lparr>fd_id = ''UDP:Destination Port'', fd_position = 0,
               fd_value = take 16 (drop 16 buffer)\<rparr>,
             \<lparr>fd_id = ''UDP:Length'', fd_position = 0, fd_value = take 16 (drop 32 buffer)\<rparr>,
             \<lparr>fd_id = ''UDP:Checksum'', fd_position = 0,
               fd_value = take 16 (drop 48 buffer)\<rparr>]\<rparr>"
  using assms by (rule parse_long)

theorem parse_fields_witness:
  "64 \<le> length udp_example \<and>
   parse udp_example =
     Inr \<lparr>hd_id = ''UDP'', hd_length = 64,
          hd_fields =
            [\<lparr>fd_id = ''UDP:Source Port'', fd_position = 0, fd_value = int_bits 16 0xd100\<rparr>,
             \<lparr>fd_id = ''UDP:Destination Port'', fd_position = 0,
               fd_value = int_bits 16 0x1633\<rparr>,
             \<lparr>fd_id = ''UDP:Length'', fd_position = 0, fd_value = int_bits 16 0x68\<rparr>,
             \<lparr>fd_id = ''UDP:Checksum'', fd_position = 0, fd_value = int_bits 16 0x5c21\<rparr>]\<rparr>"
proof -
  have len: "64 \<le> length udp_example"
    by (simp add: udp_example_def bits_of_bytes_def)
  show ?thesis
    using len parse_fields [OF len]
    by (simp add: udp_example_bits eval_nat_numeral)
qed

lemma take_drop_prefix:
  assumes "take 64 xs = take 64 ys" and "m + n \<le> 64"
  shows "take n (drop m xs) = take n (drop m ys)"
proof -
  have "take n (drop m zs) = take n (drop m (take 64 zs))" for zs :: "'a list"
    using assms(2) by (simp add: drop_take min_def)
  with assms(1) show ?thesis by metis
qed

text \<open>
  C9. The result of \<open>UDPParser.parse\<close> depends only on the first 64 bits of its input: two
  buffers of at least 64 bits that agree on their first 64 bits are parsed to equal header
  descriptors, whatever follows.
\<close>

theorem parse_prefix_only:
  assumes "64 \<le> length b1" and "64 \<le> length b2" and "take 64 b1 = take 64 b2"
  shows "parse b1 = parse b2"
proof -
  have "take 16 b1 = take 16 b2"
    using take_drop_prefix [OF assms(3), of 0 16] by simp
  moreover have "take 16 (drop 16 b1) = take 16 (drop 16 b2)"
    using take_drop_prefix [OF assms(3), of 16 16] by simp
  moreover have "take 16 (drop 32 b1) = take 16 (drop 32 b2)"
    using take_drop_prefix [OF assms(3), of 32 16] by simp
  moreover have "take 16 (drop 48 b1) = take 16 (drop 48 b2)"
    using take_drop_prefix [OF assms(3), of 48 16] by simp
  ultimately show ?thesis
    by (simp add: parse_long [OF assms(1)] parse_long [OF assms(2)])
qed

theorem parse_prefix_only_witness:
  "64 \<le> length udp_example \<and> 64 \<le> length udp_example_other \<and>
   take 64 udp_example = take 64 udp_example_other \<and>
   udp_example \<noteq> udp_example_other \<and>
   parse udp_example = parse udp_example_other"
proof -
  have l1: "64 \<le> length udp_example"
    by (simp add: udp_example_def bits_of_bytes_def)
  have l2: "64 \<le> length udp_example_other"
    by (simp add: udp_example_other_def bits_of_bytes_def)
  have pre: "take 64 udp_example = take 64 udp_example_other"
    by (simp add: udp_example_bits udp_example_other_bits)
  have ne: "udp_example \<noteq> udp_example_other"
    by (simp add: udp_example_bits udp_example_other_bits)
  show ?thesis
    using l1 l2 pre ne parse_prefix_only [OF l1 l2 pre] by simp
qed

section \<open>Integers as bits\<close>

lemma to_unsigned_int_snoc:
  "to_unsigned_int (bs @ [b]) = 2 * to_unsigned_int bs + (if b then 1 else 0)"
  by (simp add: to_unsigned_int_def)

lemma to_unsigned_int_int_bits: "to_unsigned_int (int_bits n v) = v mod 2 ^ n"
proof (induction n arbitrary: v)
  case 0
  show ?case by (simp add: to_unsigned_int_def)
next
  case (Suc n)
  have "v mod (2 * 2 ^ n) = 2 * ((v div 2) mod 2 ^ n) + v mod 2"
    by (simp add: zmod_zmult2_eq)
  moreover have "(if odd v then 1 else 0) = v mod 2"
    by presburger
  ultimately show ?case
    by (simp add: to_unsigned_int_snoc Suc.IH)
qed

lemma int_bits_add: "int_bits (m + n) v = int_bits m (v div 2 ^ n) @ int_bits n v"
proof (induction n arbitrary: v)
  case 0
  show ?case by simp
next
  case (Suc n)
  have "v div 2 div 2 ^ n = v div (2 * 2 ^ n)"
    by (simp add: zdiv_zmult2_eq)
  with Suc.IH [of "v div 2"] show ?case by simp
qed

lemma int_bits_mod: "n \<le> k \<Longrightarrow> int_bits n (v mod 2 ^ k) = int_bits n v"
proof (induction n arbitrary: v k)
  case 0
  show ?case by simp
next
  case (Suc n)
  then obtain j where k: "k = Suc j" and nj: "n \<le> j"
    by (cases k) auto
  have d: "v mod (2 * 2 ^ j) div 2 = (v div 2) mod 2 ^ j"
    by (simp add: zmod_zmult2_eq)
  have o: "odd (v mod (2 * 2 ^ j)) = odd v"
    by (simp add: zmod_zmult2_eq)
  show ?case
    using Suc.IH [OF nj, of "v div 2"] by (simp add: k d o)
qed

lemma to_bytes_2:
  "0 \<le> v \<Longrightarrow> v < 65536 \<Longrightarrow> to_bytes v 2 = Inr [v div 256 mod 256, v mod 256]"
  by (simp add: to_bytes_def eval_nat_numeral)

lemma to_bytes_2_overflow: "65536 \<le> v \<Longrightarrow> to_bytes v 2 = Inl OverflowError"
  by (simp add: to_bytes_def)

lemma Buffer_init_two_bytes: "Buffer_init [a, b] 16 LEFT = int_bits 8 a @ int_bits 8 b"
  by (simp add: Buffer_init_def bits_of_bytes_def)

lemma int_bits8_mod: "int_bits 8 (v mod 256) = int_bits 8 v"
  using int_bits_mod [of 8 8 v] by simp

lemma int_bits16_split: "int_bits 16 v = int_bits 8 (v div 256) @ int_bits 8 v"
  using int_bits_add [of 8 8 v] by simp

lemma Buffer_init_word16:
  "Buffer_init [v div 256 mod 256, v mod 256] 16 LEFT = int_bits 16 v"
  by (simp only: Buffer_init_two_bytes int_bits8_mod int_bits16_split)

lemma word16_buffer:
  assumes "0 \<le> v" and "v < 65536"
  shows "bind_err (to_bytes v 2) (\<lambda>content. Inr (Buffer_init content 16 LEFT))
           = Inr (int_bits 16 v)"
  unfolding to_bytes_2 [OF assms] bind_err_def
  by (simp only: sum.case Buffer_init_word16)

section \<open>Properties of the length function\<close>

lemma slice_from_in_range:
  "0 \<le> a \<Longrightarrow> a \<le> int (length buffer) \<Longrightarrow> slice_from buffer a = Inr (drop (nat a) buffer)"
  by (simp add: slice_from_def slice_def)

lemma octets_bounds: "8 * octets n - 8 < int n \<and> int n \<le> 8 * octets n"
  by (simp add: octets_def) presburger

lemma octets_nonneg: "0 \<le> octets n"
  using octets_bounds [of n] by linarith

lemma compute_length_in_range:
  assumes "32 \<le> field_cursor" and "field_cursor \<le> int (length packet)"
    and "octets (length packet - nat (field_cursor - 32)) < 65536"
  shows "compute_length packet field_cursor fs pos =
           Inr (int_bits 16 (octets (length packet - nat (field_cursor - 32))))"
  using assms
  by (simp add: compute_length_def slice_from_in_range bind_err_def [of "Inr x" for x]
      Let_def word16_buffer octets_nonneg)

lemma compute_length_overflow:
  assumes "32 \<le> field_cursor" and "field_cursor \<le> int (length packet)"
    and "65536 \<le> octets (length packet - nat (field_cursor - 32))"
  shows "compute_length packet field_cursor fs pos = Inl OverflowError"
  using assms
  by (simp add: compute_length_def slice_from_in_range bind_err_def Let_def to_bytes_2_overflow)

text \<open>
  C4, as amended. For every packet and field cursor with \<open>32 \<le> field_cursor \<le>\<close> bit length
  of the packet, and with at most \<open>8 * 65535\<close> bits from the start of the UDP header (32
  bits before the cursor) to the end of the packet, \<open>_compute_length\<close> returns a 16-bit
  buffer whose unsigned value \<open>v\<close> is the number \<open>n\<close> of those bits divided by 8 and
  rounded up: \<open>8 * (v - 1) < n \<le> 8 * v\<close>.
\<close>

theorem compute_length_ceil:
  assumes "32 \<le> field_cursor" and "field_cursor \<le> int (length packet)"
    and "int (length packet) - (field_cursor - 32) \<le> 524280"
  shows "\<exists>buffer. compute_length packet field_cursor fs pos = Inr buffer \<and>
           length buffer = 16 \<and>
           8 * to_unsigned_int buffer - 8 < int (length packet) - (field_cursor - 32) \<and>
           int (length packet) - (field_cursor - 32) \<le> 8 * to_unsigned_int buffer"
proof -
  define n where "n = length packet - nat (field_cursor - 32)"
  have n: "int n = int (length packet) - (field_cursor - 32)"
    using assms(1,2) by (simp add: n_def)
  have b: "8 * octets n - 8 < int n \<and> int n \<le> 8 * octets n"
    by (rule octets_bounds)
  with assms(3) n have small: "octets n < 65536" by linarith
  have "compute_length packet field_cursor fs pos = Inr (int_bits 16 (octets n))"
    unfolding n_def using assms(1,2) small [unfolded n_def] by (rule compute_length_in_range)
  moreover have "to_unsigned_int (int_bits 16 (octets n)) = octets n"
    using small octets_nonneg [of n] by (simp add: to_unsigned_int_int_bits)
  ultimately show ?thesis
    using b n by simp
qed

text \<open>
  C4 as stated fails: a packet whose UDP header and payload fill 65536 octets makes
  \<^verbatim>\<open>to_bytes(2, 'big')\<close> raise \<open>OverflowError\<close>, so no buffer is returned.
\<close>

theorem compute_length_overflow_example:
  "compute_length (replicate 524288 False) 32 [] 0 = Inl OverflowError"
  by (simp add: compute_length_def slice_from_def slice_def bind_err_def octets_def to_bytes_def)

theorem compute_length_ceil_witness:
  "(32::int) \<le> 32 \<and> (32::int) \<le> int (length (take 70 udp_example)) \<and>
   int (length (take 70 udp_example)) - (32 - 32) \<le> 524280 \<and>
   (\<exists>buffer. compute_length (take 70 udp_example) 32 [] 2 = Inr buffer \<and>
      length buffer = 16 \<and> to_unsigned_int buffer = 9)"
proof -
  have len: "length (take 70 udp_example) = 70"
    by (simp add: udp_example_def bits_of_bytes_def)
  have c: "(32::int) \<le> int (length (take 70 udp_example))" unfolding len by simp
  have s: "int (length (take 70 udp_example)) - (32 - 32) \<le> 524280" unfolding len by simp
  from compute_length_ceil [OF _ c s, of "[]" 2]
  obtain buffer where "compute_length (take 70 udp_example) 32 [] 2 = Inr buffer"
    and "length buffer = 16"
    and "8 * to_unsigned_int buffer - 8 < int (length (take 70 udp_example)) - (32 - 32)"
    and "int (length (take 70 udp_example)) - (32 - 32) \<le> 8 * to_unsigned_int buffer"
    by auto
  moreover from this have "to_unsigned_int buffer = 9"
    unfolding len by simp
  ultimately show ?thesis
    using c s by auto
qed

section \<open>The carry-folding sum\<close>

lemma and_65535: "(x::int) AND 65535 = x mod 65536"
proof -
  have "x AND mask 16 = take_bit 16 x"
    by (simp add: take_bit_eq_mask)
  then show ?thesis
    by (simp add: take_bit_eq_mod mask_eq_exp_minus_1)
qed

lemma add_carry_arith: "add_carry acc v = (acc + v + (acc + v) div 65536) mod 65536"
  by (simp add: add_carry_def Let_def and_65535 drop_bit_eq_div)

lemma oc_norm_range: "0 \<le> t \<Longrightarrow> 0 \<le> oc_norm t \<and> oc_norm t < 65536"
  by (simp add: oc_norm_def)

lemma oc_norm_small: "0 \<le> t \<Longrightarrow> t < 65536 \<Longrightarrow> oc_norm t = t"
  by (simp add: oc_norm_def)

lemma mod_shift: "0 \<le> y \<Longrightarrow> y < m \<Longrightarrow> (y + m) mod m = (y::int)"
  by simp

lemma add_carry_oc_norm:
  assumes "0 \<le> a" "a < 65536" "0 \<le> v" "v < 65536"
  shows "add_carry a v = oc_norm (a + v)"
proof (cases "a + v < 65536")
  case True
  with assms show ?thesis
    by (simp add: add_carry_arith oc_norm_small)
next
  case False
  with assms have d: "(a + v) div 65536 = 1" by simp
  have "(a + v - 65536 + 65535) mod 65535 = a + v - 65536"
    using False assms by (intro mod_shift) auto
  then have m1: "(a + v - 1) mod 65535 = a + v - 65536" by simp
  have "(a + v - 65535 + 65536) mod 65536 = a + v - 65535"
    using False assms by (intro mod_shift) auto
  then have m2: "(a + v + 1) mod 65536 = a + v - 65535" by (simp add: ac_simps)
  show ?thesis
    using False assms by (simp add: add_carry_arith d oc_norm_def m1 m2)
qed

lemma oc_norm_add:
  assumes "0 \<le> a" "0 \<le> v"
  shows "oc_norm (oc_norm a + v) = oc_norm (a + v)"
proof (cases "a = 0")
  case True
  then show ?thesis by (simp add: oc_norm_def)
next
  case False
  with assms have "0 < a" by simp
  have "(( a - 1) mod 65535 + v) mod 65535 = (a - 1 + v) mod 65535"
    by (simp add: mod_add_left_eq)
  moreover have "0 \<le> (a - 1) mod 65535" by simp
  ultimately show ?thesis
    using \<open>0 < a\<close> assms(2) by (simp add: oc_norm_def algebra_simps)
qed

lemma foldl_add_carry:
  assumes "\<forall>x \<in> set xs. 0 \<le> x \<and> x < 65536" and "0 \<le> t"
  shows "foldl add_carry (oc_norm t) xs = oc_norm (t + sum_list xs)"
  using assms
proof (induction xs arbitrary: t)
  case Nil
  show ?case by simp
next
  case (Cons x xs)
  have x: "0 \<le> x" "x < 65536" using Cons.prems(1) by auto
  have r: "0 \<le> oc_norm t \<and> oc_norm t < 65536"
    using Cons.prems(2) by (rule oc_norm_range)
  have "add_carry (oc_norm t) x = oc_norm (oc_norm t + x)"
    using r x by (simp add: add_carry_oc_norm)
  also have "\<dots> = oc_norm (t + x)"
    using Cons.prems(2) x(1) by (rule oc_norm_add)
  finally have step: "add_carry (oc_norm t) x = oc_norm (t + x)" .
  have "foldl add_carry (oc_norm (t + x)) xs = oc_norm (t + x + sum_list xs)"
    using Cons.prems x by (intro Cons.IH) auto
  with step show ?case by (simp add: add.assoc)
qed

lemma sum_list_nonneg_bounded:
  "\<forall>x \<in> set xs. 0 \<le> x \<and> x < (65536::int) \<Longrightarrow> 0 \<le> sum_list xs"
  by (induction xs) auto

lemma to_unsigned_int_range: "0 \<le> to_unsigned_int bs \<and> to_unsigned_int bs < 2 ^ length bs"
proof (induction bs rule: rev_induct)
  case Nil
  show ?case by (simp add: to_unsigned_int_def)
next
  case (snoc b bs)
  then show ?case by (simp add: to_unsigned_int_snoc)
qed

lemma word_values_range:
  assumes "\<forall>c \<in> set cs. length c = 16"
  shows "\<forall>x \<in> set (map to_unsigned_int cs). 0 \<le> x \<and> x < 65536"
proof
  fix x assume "x \<in> set (map to_unsigned_int cs)"
  then obtain c where c: "c \<in> set cs" and x: "x = to_unsigned_int c" by auto
  from c assms have "length c = 16" by simp
  with to_unsigned_int_range [of c] x show "0 \<le> x \<and> x < 65536" by simp
qed

lemma chunks_checksum_oc:
  assumes "\<forall>c \<in> set cs. length c = 16"
  shows "chunks_checksum cs = oc_norm (sum_list (map to_unsigned_int cs))"
proof -
  have "foldl add_carry (oc_norm 0) (map to_unsigned_int cs)
          = oc_norm (0 + sum_list (map to_unsigned_int cs))"
    using word_values_range [OF assms] by (intro foldl_add_carry) auto
  then show ?thesis by (simp add: chunks_checksum_def oc_norm_def)
qed

lemma combined_checksum_oc:
  assumes "\<forall>c \<in> set cs1. length c = 16" and "\<forall>c \<in> set cs2. length c = 16"
  shows "add_carry (chunks_checksum cs1) (chunks_checksum cs2)
           = ones_complement_sum (map to_unsigned_int cs1 @ map to_unsigned_int cs2)"
proof -
  let ?s1 = "sum_list (map to_unsigned_int cs1)" and ?s2 = "sum_list (map to_unsigned_int cs2)"
  have n1: "0 \<le> ?s1" using word_values_range [OF assms(1)] by (rule sum_list_nonneg_bounded)
  have n2: "0 \<le> ?s2" using word_values_range [OF assms(2)] by (rule sum_list_nonneg_bounded)
  have r1: "0 \<le> oc_norm ?s1 \<and> oc_norm ?s1 < 65536" using n1 by (rule oc_norm_range)
  have r2: "0 \<le> oc_norm ?s2 \<and> oc_norm ?s2 < 65536" using n2 by (rule oc_norm_range)
  have "add_carry (oc_norm ?s1) (oc_norm ?s2) = oc_norm (oc_norm ?s1 + oc_norm ?s2)"
    using r1 r2 by (simp add: add_carry_oc_norm)
  also have "\<dots> = oc_norm (?s1 + oc_norm ?s2)"
    using n1 r2 by (simp add: oc_norm_add)
  also have "\<dots> = oc_norm (oc_norm ?s2 + ?s1)" by (simp add: add.commute)
  also have "\<dots> = oc_norm (?s2 + ?s1)" using n2 n1 by (rule oc_norm_add)
  finally show ?thesis
    by (simp add: chunks_checksum_oc assms ones_complement_sum_def add.commute)
qed

lemma ones_complement_sum_range:
  assumes "\<forall>x \<in> set ws. 0 \<le> x \<and> x < 65536"
  shows "0 \<le> ones_complement_sum ws \<and> ones_complement_sum ws < 65536"
  using oc_norm_range [OF sum_list_nonneg_bounded [OF assms]]
  by (simp add: ones_complement_sum_def)

lemma complement16_arith:
  assumes "0 \<le> v" and "v < 65536"
  shows "complement16 v = 65535 - v"
proof -
  have e: "- v - 1 = 65535 - v - 65536" by simp
  have "(- v - 1) mod 65536 = (65535 - v) mod 65536"
    unfolding e by (rule minus_mod_self2)
  also have "\<dots> = 65535 - v"
    using assms by simp
  finally show ?thesis
    by (simp add: complement16_def and_65535 not_int_def)
qed

section \<open>Chunks\<close>

lemma bind_err_Inr: "bind_err (Inr v) f = f v"
  by (simp add: bind_err_def)

lemma bind_err_Inl: "bind_err (Inl e) f = Inl e"
  by (simp add: bind_err_def)

lemma bind_err_eq_Inr:
  "bind_err m f = Inr r \<Longrightarrow> \<exists>v. m = Inr v \<and> f v = Inr r"
  by (cases m) (simp_all add: bind_err_def)

lemma chunks_from_lengths:
  "chunks_from n pad bs = Inr cs \<Longrightarrow> \<forall>c \<in> set cs. length c = n"
proof (induction n pad bs arbitrary: cs rule: chunks_from.induct)
  case (1 n pad bs)
  show ?case
  proof (cases "bs = [] \<or> n = 0 \<or> length bs < n")
    case True
    with "1.prems" show ?thesis
      by (auto simp: chunks_from.simps [of n pad bs] split: if_splits)
  next
    case False
    then have a: "bs \<noteq> []" "n \<noteq> 0" "\<not> length bs < n" by auto
    from "1.prems" a obtain cs' where
      r: "chunks_from n pad (drop n bs) = Inr cs'" and cs: "cs = take n bs # cs'"
      by (auto simp: chunks_from.simps [of n pad bs] dest!: bind_err_eq_Inr)
    from "1.IH" [OF a r] have "\<forall>c \<in> set cs'. length c = n" .
    with a cs show ?thesis by auto
  qed
qed

lemma chunks_from_concat_nopad:
  "chunks_from n False bs = Inr cs \<Longrightarrow> concat cs = bs"
proof (induction n "False" bs arbitrary: cs rule: chunks_from.induct)
  case (1 n bs)
  show ?case
  proof (cases "bs = [] \<or> n = 0 \<or> length bs < n")
    case True
    with "1.prems" show ?thesis
      by (auto simp: chunks_from.simps [of n False bs] split: if_splits)
  next
    case False
    then have a: "bs \<noteq> []" "n \<noteq> 0" "\<not> length bs < n" by auto
    from "1.prems" a obtain cs' where
      r: "chunks_from n False (drop n bs) = Inr cs'" and cs: "cs = take n bs # cs'"
      by (auto simp: chunks_from.simps [of n False bs] dest!: bind_err_eq_Inr)
    from "1.hyps" [OF a r] have "concat cs' = drop n bs" .
    with cs show ?thesis by simp
  qed
qed

lemma chunks_from_pad_total: "0 < n \<Longrightarrow> \<exists>cs. chunks_from n True bs = Inr cs"
proof (induction n "True" bs rule: chunks_from.induct)
  case (1 n bs)
  show ?case
  proof (cases "bs = [] \<or> length bs < n")
    case True
    with "1.prems" show ?thesis
      by (auto simp: chunks_from.simps [of n True bs])
  next
    case False
    then have a: "bs \<noteq> []" "n \<noteq> 0" "\<not> length bs < n" using "1.prems" by auto
    from "1.hyps" [OF a "1.prems"] obtain cs' where "chunks_from n True (drop n bs) = Inr cs'"
      by auto
    with a show ?thesis
      by (simp add: chunks_from.simps [of n True bs] bind_err_Inr)
  qed
qed

lemma chunks_from_concat_pad:
  "chunks_from n True bs = Inr cs \<Longrightarrow> 0 < n \<Longrightarrow>
   concat cs = bs @ replicate ((n - length bs mod n) mod n) False"
proof (induction n "True" bs arbitrary: cs rule: chunks_from.induct)
  case (1 n bs)
  show ?case
  proof (cases "bs = [] \<or> length bs < n")
    case True
    with "1.prems" show ?thesis
      by (auto simp: chunks_from.simps [of n True bs] split: if_splits)
  next
    case False
    then have a: "bs \<noteq> []" "n \<noteq> 0" "\<not> length bs < n" using "1.prems" by auto
    from "1.prems" a obtain cs' where
      r: "chunks_from n True (drop n bs) = Inr cs'" and cs: "cs = take n bs # cs'"
      by (auto simp: chunks_from.simps [of n True bs] dest!: bind_err_eq_Inr)
    from "1.hyps" [OF a r "1.prems"(2)]
    have ih: "concat cs' = drop n bs @ replicate ((n - length (drop n bs) mod n) mod n) False" .
    have "(length bs - n) mod n = length bs mod n"
      using a(3) by (simp add: le_mod_geq)
    with ih cs show ?thesis by simp
  qed
qed

section \<open>The checksum of a pseudo-header and a payload\<close>

lemma zero_escape_range:
  "0 \<le> v \<Longrightarrow> v < 65536 \<Longrightarrow> 1 \<le> zero_escape v \<and> zero_escape v < 65536"
  by (simp add: zero_escape_def)

lemma checksum_of_chunks:
  assumes c1: "chunks ph 16 False = Inr cs1" and c2: "chunks udp 16 True = Inr cs2"
  shows "checksum_of ph udp =
           Inr (int_bits 16 (zero_escape (65535 - ones_complement_sum
                  (map to_unsigned_int cs1 @ map to_unsigned_int cs2))))"
proof -
  let ?ws = "map to_unsigned_int cs1 @ map to_unsigned_int cs2"
  have l1: "\<forall>c \<in> set cs1. length c = 16"
    using c1 unfolding chunks_def by (rule chunks_from_lengths)
  have l2: "\<forall>c \<in> set cs2. length c = 16"
    using c2 unfolding chunks_def by (rule chunks_from_lengths)
  have s: "add_carry (chunks_checksum cs1) (chunks_checksum cs2) = ones_complement_sum ?ws"
    using l1 l2 by (rule combined_checksum_oc)
  have "\<forall>x \<in> set ?ws. 0 \<le> x \<and> x < 65536"
    using word_values_range [OF l1] word_values_range [OF l2] by auto
  then have r: "0 \<le> ones_complement_sum ?ws \<and> ones_complement_sum ?ws < 65536"
    by (rule ones_complement_sum_range)
  then have c: "complement16 (ones_complement_sum ?ws) = 65535 - ones_complement_sum ?ws"
    by (simp add: complement16_arith)
  have "1 \<le> zero_escape (65535 - ones_complement_sum ?ws)
        \<and> zero_escape (65535 - ones_complement_sum ?ws) < 65536"
    using r by (intro zero_escape_range) auto
  then have w: "bind_err (to_bytes (zero_escape (65535 - ones_complement_sum ?ws)) 2)
                  (\<lambda>content. Inr (Buffer_init content 16 LEFT))
                = Inr (int_bits 16 (zero_escape (65535 - ones_complement_sum ?ws)))"
    by (intro word16_buffer) auto
  show ?thesis
    by (simp only: checksum_of_def c1 c2 bind_err_Inr Let_def s c w)
qed

lemma checksum_of_InrD:
  assumes "checksum_of ph udp = Inr buffer"
  shows "\<exists>cs1 cs2. chunks ph 16 False = Inr cs1 \<and> chunks udp 16 True = Inr cs2 \<and>
           buffer = int_bits 16 (zero_escape (65535 - ones_complement_sum
                      (map to_unsigned_int cs1 @ map to_unsigned_int cs2)))"
proof -
  from assms obtain cs1 where c1: "chunks ph 16 False = Inr cs1"
    unfolding checksum_of_def by (auto dest!: bind_err_eq_Inr)
  obtain cs2 where c2: "chunks udp 16 True = Inr cs2"
    using chunks_from_pad_total [of 16 udp] by (auto simp: chunks_def)
  from checksum_of_chunks [OF c1 c2] assms c1 c2 show ?thesis by auto
qed

lemma compute_checksum_InrD:
  assumes "compute_checksum ids packet field_cursor decompressed_fields rule_field_position = Inr buffer"
  shows "\<exists>last_field udp ph.
           py_index (map fst decompressed_fields) (rule_field_position - 4) = Inr last_field \<and>
           slice_from packet (field_cursor - 48) = Inr udp \<and>
           pseudo_header ids last_field (map fst decompressed_fields) (map snd decompressed_fields) (rule_field_position - 4)
             (octets (length udp)) = Inr ph \<and>
           checksum_of ph udp = Inr buffer"
  using assms unfolding compute_checksum_def Let_def
  by (auto dest!: bind_err_eq_Inr)

lemma compute_checksum_steps:
  assumes "py_index (map fst decompressed_fields) (rule_field_position - 4) = Inr last_field"
    and "slice_from packet (field_cursor - 48) = Inr udp"
  shows "compute_checksum ids packet field_cursor decompressed_fields rule_field_position =
           bind_err (pseudo_header ids last_field (map fst decompressed_fields) (map snd decompressed_fields) (rule_field_position - 4)
                       (octets (length udp)))
             (\<lambda>ph. checksum_of ph udp)"
  by (simp only: compute_checksum_def Let_def assms bind_err_Inr)

lemma word16_value: "0 \<le> v \<Longrightarrow> v < 65536 \<Longrightarrow> to_unsigned_int (int_bits 16 v) = v"
  by (simp add: to_unsigned_int_int_bits)

lemma compute_checksum_value:
  assumes "compute_checksum ids packet field_cursor decompressed_fields rule_field_position = Inr buffer"
  shows "\<exists>last_field udp ph cs1 cs2.
           py_index (map fst decompressed_fields) (rule_field_position - 4) = Inr last_field \<and>
           slice_from packet (field_cursor - 48) = Inr udp \<and>
           pseudo_header ids last_field (map fst decompressed_fields) (map snd decompressed_fields) (rule_field_position - 4)
             (octets (length udp)) = Inr ph \<and>
           chunks ph 16 False = Inr cs1 \<and> chunks udp 16 True = Inr cs2 \<and>
           concat cs1 = ph \<and>
           concat cs2 = udp @ replicate ((16 - length udp mod 16) mod 16) False \<and>
           (\<forall>c \<in> set (cs1 @ cs2). length c = 16) \<and>
           0 \<le> ones_complement_sum (map to_unsigned_int cs1 @ map to_unsigned_int cs2) \<and>
           ones_complement_sum (map to_unsigned_int cs1 @ map to_unsigned_int cs2) < 65536 \<and>
           length buffer = 16 \<and>
           to_unsigned_int buffer =
             zero_escape (65535 - ones_complement_sum
               (map to_unsigned_int cs1 @ map to_unsigned_int cs2))"
proof -
  from compute_checksum_InrD [OF assms] obtain last_field udp ph where
    a: "py_index (map fst decompressed_fields) (rule_field_position - 4) = Inr last_field"
       "slice_from packet (field_cursor - 48) = Inr udp"
       "pseudo_header ids last_field (map fst decompressed_fields) (map snd decompressed_fields) (rule_field_position - 4)
          (octets (length udp)) = Inr ph"
    and k: "checksum_of ph udp = Inr buffer"
    by blast
  from checksum_of_InrD [OF k] obtain cs1 cs2 where
    c1: "chunks ph 16 False = Inr cs1" and c2: "chunks udp 16 True = Inr cs2"
    and b: "buffer = int_bits 16 (zero_escape (65535 - ones_complement_sum
                      (map to_unsigned_int cs1 @ map to_unsigned_int cs2)))"
    by blast
  let ?ws = "map to_unsigned_int cs1 @ map to_unsigned_int cs2"
  have l1: "\<forall>c \<in> set cs1. length c = 16"
    using c1 unfolding chunks_def by (rule chunks_from_lengths)
  have l2: "\<forall>c \<in> set cs2. length c = 16"
    using c2 unfolding chunks_def by (rule chunks_from_lengths)
  have "\<forall>x \<in> set ?ws. 0 \<le> x \<and> x < 65536"
    using word_values_range [OF l1] word_values_range [OF l2] by auto
  then have r: "0 \<le> ones_complement_sum ?ws \<and> ones_complement_sum ?ws < 65536"
    by (rule ones_complement_sum_range)
  then have z: "1 \<le> zero_escape (65535 - ones_complement_sum ?ws)
        \<and> zero_escape (65535 - ones_complement_sum ?ws) < 65536"
    by (intro zero_escape_range) auto
  have v: "to_unsigned_int buffer = zero_escape (65535 - ones_complement_sum ?ws)"
    unfolding b using z by (intro word16_value) auto
  have k1: "concat cs1 = ph"
    using c1 unfolding chunks_def by (rule chunks_from_concat_nopad)
  have k2: "concat cs2 = udp @ replicate ((16 - length udp mod 16) mod 16) False"
    using c2 unfolding chunks_def by (intro chunks_from_concat_pad) auto
  have l: "\<forall>c \<in> set (cs1 @ cs2). length c = 16" using l1 l2 by auto
  have lb: "length buffer = 16" by (simp add: b)
  from a c1 c2 k1 k2 l r lb v show ?thesis by blast
qed

section \<open>Properties of the checksum function\<close>

lemma ipv4_checksum_example:
  "compute_checksum example_ids udp_datagram 48 ipv4_fields 6 = Inr (int_bits 16 12116)"
  by code_simp

lemma ipv4_checksum_summed_example:
  "compute_checksum example_ids udp_datagram_summed 48 ipv4_fields 6 = Inr (int_bits 16 65535)"
  by code_simp

text \<open>
  C2. Whenever \<open>_compute_checksum\<close> returns a buffer, the pseudo-header was cut into
  16-bit chunks (without padding), the UDP header and payload into 16-bit chunks after
  zero bits were appended up to a multiple of 16 bits, and the value returned is the
  complement on 16 bits (\<open>65535 - s\<close>) of the one's complement sum \<open>s\<close> of the big-endian
  values of all these chunks, the pseudo-header's first, with \<open>0xffff\<close> in place of a
  complement of zero. The carry folding after each addition and after the combination of
  the two partial sums is what makes the loops compute the one's complement sum
  (\<open>foldl_add_carry\<close>, \<open>combined_checksum_oc\<close>).
\<close>

theorem compute_checksum_ones_complement:
  assumes "compute_checksum ids packet field_cursor decompressed_fields rule_field_position
             = Inr buffer"
  shows "\<exists>last_field udp ph cs1 cs2.
           py_index (map fst decompressed_fields) (rule_field_position - 4) = Inr last_field \<and>
           slice_from packet (field_cursor - 48) = Inr udp \<and>
           pseudo_header ids last_field (map fst decompressed_fields)
             (map snd decompressed_fields) (rule_field_position - 4)
             (octets (length udp)) = Inr ph \<and>
           chunks ph 16 False = Inr cs1 \<and> chunks udp 16 True = Inr cs2 \<and>
           concat cs1 = ph \<and>
           concat cs2 = udp @ replicate ((16 - length udp mod 16) mod 16) False \<and>
           (\<forall>c \<in> set (cs1 @ cs2). length c = 16) \<and>
           chunks_checksum cs1 = ones_complement_sum (map to_unsigned_int cs1) \<and>
           chunks_checksum cs2 = ones_complement_sum (map to_unsigned_int cs2) \<and>
           add_carry (chunks_checksum cs1) (chunks_checksum cs2) =
             ones_complement_sum (map to_unsigned_int cs1 @ map to_unsigned_int cs2) \<and>
           complement16 (ones_complement_sum
               (map to_unsigned_int cs1 @ map to_unsigned_int cs2)) =
             65535 - ones_complement_sum (map to_unsigned_int cs1 @ map to_unsigned_int cs2) \<and>
           to_unsigned_int buffer =
             zero_escape (65535 - ones_complement_sum
               (map to_unsigned_int cs1 @ map to_unsigned_int cs2))"
proof -
  from compute_checksum_value [OF assms] obtain last_field udp ph cs1 cs2 where
    a: "py_index (map fst decompressed_fields) (rule_field_position - 4) = Inr last_field"
       "slice_from packet (field_cursor - 48) = Inr udp"
       "pseudo_header ids last_field (map fst decompressed_fields)
          (map snd decompressed_fields) (rule_field_position - 4)
          (octets (length udp)) = Inr ph"
       "chunks ph 16 False = Inr cs1" "chunks udp 16 True = Inr cs2"
       "concat cs1 = ph"
       "concat cs2 = udp @ replicate ((16 - length udp mod 16) mod 16) False"
    and l: "\<forall>c \<in> set (cs1 @ cs2). length c = 16"
    and r: "0 \<le> ones_complement_sum (map to_unsigned_int cs1 @ map to_unsigned_int cs2)"
       "ones_complement_sum (map to_unsigned_int cs1 @ map to_unsigned_int cs2) < 65536"
    and v: "to_unsigned_int buffer =
             zero_escape (65535 - ones_complement_sum
               (map to_unsigned_int cs1 @ map to_unsigned_int cs2))"
    by blast
  from l have l1: "\<forall>c \<in> set cs1. length c = 16" and l2: "\<forall>c \<in> set cs2. length c = 16"
    by auto
  have s1: "chunks_checksum cs1 = ones_complement_sum (map to_unsigned_int cs1)"
    using l1 by (simp add: chunks_checksum_oc ones_complement_sum_def)
  have s2: "chunks_checksum cs2 = ones_complement_sum (map to_unsigned_int cs2)"
    using l2 by (simp add: chunks_checksum_oc ones_complement_sum_def)
  have s: "add_carry (chunks_checksum cs1) (chunks_checksum cs2) =
             ones_complement_sum (map to_unsigned_int cs1 @ map to_unsigned_int cs2)"
    using l1 l2 by (rule combined_checksum_oc)
  have c: "complement16 (ones_complement_sum
               (map to_unsigned_int cs1 @ map to_unsigned_int cs2)) =
             65535 - ones_complement_sum (map to_unsigned_int cs1 @ map to_unsigned_int cs2)"
    using r by (rule complement16_arith)
  from a l s1 s2 s c v show ?thesis by blast
qed

theorem compute_checksum_ones_complement_witness:
  "compute_checksum example_ids udp_datagram 48 ipv4_fields 6 = Inr (int_bits 16 12116) \<and>
   to_unsigned_int (int_bits 16 12116) = 12116 \<and>
   (\<exists>cs1 cs2.
      to_unsigned_int (int_bits 16 12116) =
        zero_escape (65535 - ones_complement_sum
          (map to_unsigned_int cs1 @ map to_unsigned_int cs2)))"
proof -
  have v: "to_unsigned_int (int_bits 16 12116) = 12116" by code_simp
  from compute_checksum_ones_complement [OF ipv4_checksum_example]
  have "\<exists>cs1 cs2.
      to_unsigned_int (int_bits 16 12116) =
        zero_escape (65535 - ones_complement_sum
          (map to_unsigned_int cs1 @ map to_unsigned_int cs2))"
    by blast
  with ipv4_checksum_example v show ?thesis by blast
qed

text \<open>
  C8. Whenever \<open>_compute_checksum\<close> returns, the value returned is the complement on 16
  bits of the folded sum, with \<open>0xffff\<close> in place of a complement of \<open>0x0000\<close>; so the
  buffer has 16 bits, its value lies in \<open>1..65535\<close>, and it is never the all-zero buffer.
\<close>

theorem compute_checksum_never_zero:
  assumes "compute_checksum ids packet field_cursor decompressed_fields rule_field_position
             = Inr buffer"
  shows "(\<exists>last_field ph udp cs1 cs2.
            py_index (map fst decompressed_fields) (rule_field_position - 4)
              = Inr last_field \<and>
            slice_from packet (field_cursor - 48) = Inr udp \<and>
            pseudo_header ids last_field (map fst decompressed_fields)
              (map snd decompressed_fields) (rule_field_position - 4)
              (octets (length udp)) = Inr ph \<and>
            chunks ph 16 False = Inr cs1 \<and> chunks udp 16 True = Inr cs2 \<and>
            to_unsigned_int buffer =
              (if complement16 (add_carry (chunks_checksum cs1) (chunks_checksum cs2)) = 0
               then 65535
               else complement16 (add_carry (chunks_checksum cs1) (chunks_checksum cs2)))) \<and>
         length buffer = 16 \<and>
         1 \<le> to_unsigned_int buffer \<and> to_unsigned_int buffer \<le> 65535 \<and>
         buffer \<noteq> replicate 16 False"
proof -
  from compute_checksum_value [OF assms] obtain last_field udp ph cs1 cs2 where
    a: "py_index (map fst decompressed_fields) (rule_field_position - 4) = Inr last_field"
       "slice_from packet (field_cursor - 48) = Inr udp"
       "pseudo_header ids last_field (map fst decompressed_fields)
          (map snd decompressed_fields) (rule_field_position - 4)
          (octets (length udp)) = Inr ph"
       "chunks ph 16 False = Inr cs1" "chunks udp 16 True = Inr cs2"
    and l: "\<forall>c \<in> set (cs1 @ cs2). length c = 16"
    and r: "0 \<le> ones_complement_sum (map to_unsigned_int cs1 @ map to_unsigned_int cs2)"
       "ones_complement_sum (map to_unsigned_int cs1 @ map to_unsigned_int cs2) < 65536"
    and lb: "length buffer = 16"
    and v: "to_unsigned_int buffer =
             zero_escape (65535 - ones_complement_sum
               (map to_unsigned_int cs1 @ map to_unsigned_int cs2))"
    by blast
  let ?s = "ones_complement_sum (map to_unsigned_int cs1 @ map to_unsigned_int cs2)"
  from l have l1: "\<forall>c \<in> set cs1. length c = 16" and l2: "\<forall>c \<in> set cs2. length c = 16"
    by auto
  have s: "add_carry (chunks_checksum cs1) (chunks_checksum cs2) = ?s"
    using l1 l2 by (rule combined_checksum_oc)
  have c: "complement16 ?s = 65535 - ?s"
    using r by (rule complement16_arith)
  have e: "to_unsigned_int buffer =
              (if complement16 (add_carry (chunks_checksum cs1) (chunks_checksum cs2)) = 0
               then 65535
               else complement16 (add_carry (chunks_checksum cs1) (chunks_checksum cs2)))"
    unfolding s c v by (simp add: zero_escape_def)
  have "1 \<le> zero_escape (65535 - ?s) \<and> zero_escape (65535 - ?s) < 65536"
    using r by (intro zero_escape_range) auto
  with v have b: "1 \<le> to_unsigned_int buffer \<and> to_unsigned_int buffer \<le> 65535" by simp
  have "to_unsigned_int (replicate 16 False) = 0"
    by (simp add: to_unsigned_int_def eval_nat_numeral)
  with b have n: "buffer \<noteq> replicate 16 False" by auto
  from a e lb b n show ?thesis by blast
qed

theorem compute_checksum_never_zero_witness:
  "compute_checksum example_ids udp_datagram_summed 48 ipv4_fields 6
     = Inr (int_bits 16 65535) \<and>
   length (int_bits 16 65535) = 16 \<and>
   1 \<le> to_unsigned_int (int_bits 16 65535) \<and>
   int_bits 16 65535 \<noteq> replicate 16 False"
  using ipv4_checksum_summed_example
    compute_checksum_never_zero [OF ipv4_checksum_summed_example]
  by simp

text \<open>
  C10. When the id of the field four rule positions before the checksum field contains
  neither the IPv6 nor the IPv4 marker, \<open>_compute_checksum\<close> returns no buffer: it fails
  with the bounds error of the packet slice if that slice fails, and with
  \<open>UnboundLocalError\<close> otherwise, the pseudo-header never having been assigned.
\<close>

theorem compute_checksum_no_network_layer:
  assumes "py_index (map fst decompressed_fields) (rule_field_position - 4) = Inr last_field"
    and "\<not> str_contains (IPv6_HEADER_ID ids) last_field"
    and "\<not> str_contains (IPV4_HEADER_ID ids) last_field"
  shows "compute_checksum ids packet field_cursor decompressed_fields rule_field_position =
           (case slice_from packet (field_cursor - 48) of
              Inl e \<Rightarrow> Inl e
            | Inr udp \<Rightarrow> Inl UnboundLocalError)"
proof (cases "slice_from packet (field_cursor - 48)")
  case (Inl e)
  then show ?thesis
    by (simp add: compute_checksum_def Let_def assms(1) bind_err_Inr bind_err_Inl)
next
  case (Inr udp)
  have "pseudo_header ids last_field (map fst decompressed_fields)
          (map snd decompressed_fields) (rule_field_position - 4) (octets (length udp))
          = Inl UnboundLocalError"
    using assms(2,3) by (simp add: pseudo_header_def)
  then show ?thesis
    by (simp add: compute_checksum_steps [OF assms(1) Inr] Inr bind_err_Inl)
qed

theorem compute_checksum_no_network_layer_witness:
  "py_index (map fst other_fields) (4 - 4) = Inr ''Shim:Tag'' \<and>
   \<not> str_contains (IPv6_HEADER_ID example_ids) ''Shim:Tag'' \<and>
   \<not> str_contains (IPV4_HEADER_ID example_ids) ''Shim:Tag'' \<and>
   slice_from udp_datagram (48 - 48) = Inr udp_datagram \<and>
   compute_checksum example_ids udp_datagram 48 other_fields 4 = Inl UnboundLocalError"
proof -
  have i: "py_index (map fst other_fields) (4 - 4) = Inr ''Shim:Tag''"
    by (simp add: py_index_def other_fields_def)
  have n6: "\<not> str_contains (IPv6_HEADER_ID example_ids) ''Shim:Tag''"
    by (simp add: example_ids_def)
  have n4: "\<not> str_contains (IPV4_HEADER_ID example_ids) ''Shim:Tag''"
    by (simp add: example_ids_def)
  have s: "slice_from udp_datagram (48 - 48) = Inr udp_datagram"
    by (simp add: slice_from_def slice_def)
  from compute_checksum_no_network_layer [OF i n6 n4, of udp_datagram 48]
  have "compute_checksum example_ids udp_datagram 48 other_fields 4 = Inl UnboundLocalError"
    using s by simp
  with i n6 n4 s show ?thesis by blast
qed

section \<open>The pseudo-header\<close>

lemma next_offset_first:
  assumes "m < length ys" and "ys ! m = x" and "\<forall>j<m. ys ! j \<noteq> x"
  shows "next_offset x ys k = Inr (k + m)"
  using assms
proof (induction ys arbitrary: k m)
  case Nil
  then show ?case by simp
next
  case (Cons y ys)
  show ?case
  proof (cases m)
    case 0
    with Cons.prems show ?thesis by simp
  next
    case (Suc m')
    have "y \<noteq> x" using Cons.prems(3) Suc by auto
    moreover have "next_offset x ys (Suc k) = Inr (Suc k + m')"
    proof (rule Cons.IH)
      show "m' < length ys" using Cons.prems(1) Suc by simp
      show "ys ! m' = x" using Cons.prems(2) Suc by simp
      show "\<forall>j<m'. ys ! j \<noteq> x" using Cons.prems(3) Suc by auto
    qed
    ultimately show ?thesis using Suc by simp
  qed
qed

lemma py_slice_down_in_range:
  assumes "0 \<le> p" and "p < int (length xs)"
  shows "py_slice_down xs p = rev (drop 1 (take (Suc (nat p)) xs))"
proof -
  have "nat (p + 1) = Suc (nat p)" using assms(1) by simp
  with assms show ?thesis by (simp add: py_slice_down_def Let_def min_def)
qed

lemma py_slice_down_length:
  assumes "0 \<le> p" and "p < int (length xs)"
  shows "length (py_slice_down xs p) = nat p"
  using assms by (simp add: py_slice_down_in_range)

lemma py_slice_down_nth:
  assumes "0 \<le> p" and "p < int (length xs)" and "m < nat p"
  shows "py_slice_down xs p ! m = xs ! (nat p - m)"
proof -
  let ?ys = "drop 1 (take (Suc (nat p)) xs)"
  have l: "length ?ys = nat p" using assms(1,2) by simp
  have "rev ?ys ! m = ?ys ! (length ?ys - Suc m)"
    using assms(3) l by (simp add: rev_nth)
  also have "\<dots> = ?ys ! (nat p - Suc m)" by (simp only: l)
  also have "\<dots> = take (Suc (nat p)) xs ! (1 + (nat p - Suc m))"
    using assms by simp
  also have "1 + (nat p - Suc m) = nat p - m" using assms(3) by simp
  also have "take (Suc (nat p)) xs ! (nat p - m) = xs ! (nat p - m)"
    by simp
  finally show ?thesis by (simp add: py_slice_down_in_range assms(1,2))
qed

lemma source_address_offset:
  assumes "0 \<le> p" and "p < int (length fids)"
    and "1 \<le> i" and "i \<le> nat p" and "fids ! i = src_id"
    and "\<forall>j. i < j \<and> j \<le> nat p \<longrightarrow> fids ! j \<noteq> src_id"
  shows "next_offset src_id (py_slice_down fids p) 0 = Inr (nat p - i)"
proof -
  have "next_offset src_id (py_slice_down fids p) 0 = Inr (0 + (nat p - i))"
  proof (rule next_offset_first)
    show "nat p - i < length (py_slice_down fids p)"
      using assms(1-4) by (simp add: py_slice_down_length)
    have "py_slice_down fids p ! (nat p - i) = fids ! (nat p - (nat p - i))"
      using assms(1-4) by (intro py_slice_down_nth) auto
    then show "py_slice_down fids p ! (nat p - i) = src_id"
      using assms(4,5) by simp
    show "\<forall>j<nat p - i. py_slice_down fids p ! j \<noteq> src_id"
    proof (intro allI impI)
      fix j assume j: "j < nat p - i"
      then have "py_slice_down fids p ! j = fids ! (nat p - j)"
        using assms(1,2) by (intro py_slice_down_nth) auto
      moreover have "i < nat p - j \<and> nat p - j \<le> nat p" using j by auto
      ultimately show "py_slice_down fids p ! j \<noteq> src_id"
        using assms(6) by simp
    qed
  qed
  then show ?thesis by simp
qed

lemma py_index_in_range: "i < length xs \<Longrightarrow> py_index xs (int i) = Inr (xs ! i)"
  by (simp add: py_index_def)

lemma to_bytes_4:
  "0 \<le> v \<Longrightarrow> v < 65536 \<Longrightarrow> to_bytes v 4 = Inr [0, 0, v div 256 mod 256, v mod 256]"
  by (simp add: to_bytes_def eval_nat_numeral)

lemma Buffer_init_four_bytes:
  "Buffer_init [a, b, c, d] 16 LEFT = int_bits 8 c @ int_bits 8 d"
  by (simp add: Buffer_init_def bits_of_bytes_def)

lemma length_word16:
  assumes "0 \<le> v" and "v < 65536" and "w = 2 \<or> w = 4"
  shows "bind_err (to_bytes v w) (\<lambda>content. f (Buffer_init content 16 LEFT))
           = f (int_bits 16 v)"
proof -
  have e: "int_bits 8 (v div 256 mod 256) @ int_bits 8 (v mod 256) = int_bits 16 v"
    by (simp only: int_bits8_mod int_bits16_split)
  from assms(3) show ?thesis
  proof
    assume "w = 2"
    then show ?thesis
      by (simp only: to_bytes_2 [OF assms(1,2)] bind_err_Inr Buffer_init_two_bytes e)
  next
    assume "w = 4"
    then show ?thesis
      by (simp only: to_bytes_4 [OF assms(1,2)] bind_err_Inr Buffer_init_four_bytes e)
  qed
qed

lemma build_pseudo_header_located:
  assumes "0 \<le> p" and "p < int (length fids)" and "length fvals = length fids"
    and "1 \<le> i" and "i \<le> nat p" and "fids ! i = src_id"
    and "\<forall>j. i < j \<and> j \<le> nat p \<longrightarrow> fids ! j \<noteq> src_id"
    and "Suc i < length fvals"
    and "0 \<le> len" and "len < 65536" and "w = 2 \<or> w = 4"
  shows "build_pseudo_header src_id w fids fvals p len =
           Inr (spec_ipv4_pseudo_header (fvals ! i) (fvals ! Suc i) len)"
proof -
  have off: "next_offset src_id (py_slice_down fids p) 0 = Inr (nat p - i)"
    using assms(1,2,4-7) by (rule source_address_offset)
  have pos: "p - int (nat p - i) = int i"
    using assms(1,5) by simp
  have s: "py_index fvals (int i) = Inr (fvals ! i)"
    using assms(8) by (intro py_index_in_range) simp
  have d: "py_index fvals (int i + 1) = Inr (fvals ! Suc i)"
    using py_index_in_range [OF assms(8)] by (simp add: add.commute)
  have proto: "Buffer_init [0, 17] 16 LEFT = int_bits 8 0 @ int_bits 8 17"
    by (rule Buffer_init_two_bytes)
  have len: "bind_err (to_bytes len w)
               (\<lambda>content. Inr (fvals ! i @ fvals ! Suc i @ (int_bits 8 0 @ int_bits 8 17)
                  @ Buffer_init content 16 LEFT))
             = Inr (fvals ! i @ fvals ! Suc i @ (int_bits 8 0 @ int_bits 8 17)
                  @ int_bits 16 len)"
    using assms(9-11) by (rule length_word16)
  show ?thesis
    unfolding build_pseudo_header_def off bind_err_Inr Let_def pos s d proto len
      spec_ipv4_pseudo_header_def
    by simp
qed

lemma ipv6_pseudo_header_example:
  "pseudo_header example_ids ''IPv6:Destination Address'' (map fst ipv6_fields)
     (map snd ipv6_fields) 2 9
   = Inr (ipv6_source @ ipv6_destination @ int_bits 8 0 @ int_bits 8 17 @ int_bits 16 9)"
  by code_simp

lemma selected_shape_cases:
  assumes "selected_shape ids last_field = Some shape"
  shows "pseudo_header ids last_field fids fvals p len =
           build_pseudo_header
             (case shape of IPv6_pseudo_header \<Rightarrow> IPv6_SRC_ADDRESS ids
                          | IPv4_pseudo_header \<Rightarrow> IPv4_SRC_ADDRESS ids)
             (case shape of IPv6_pseudo_header \<Rightarrow> 4 | IPv4_pseudo_header \<Rightarrow> 2)
             fids fvals p len"
  using assms by (auto simp: selected_shape_def pseudo_header_def split: if_splits)

text \<open>
  C3, as amended. For the IPv4 shape and for the IPv6 shape alike, when the UDP header and
  payload make fewer than 65536 octets, the pseudo-header that \<open>_compute_checksum\<close> builds
  and sums is: source address, destination address, a zero octet, protocol (next header)
  17 on 8 bits, UDP length on 16 bits, in this order. The source address is the value of
  the nearest field at or before index \<open>rule_field_position - 4\<close> (index 0 left out) whose
  id is the source-address id of the shape, and the destination address is the value of
  the field right after it.
\<close>

theorem pseudo_header_built:
  assumes "4 \<le> rule_field_position"
    and "rule_field_position - 4 < int (length decompressed_fields)"
    and "slice_from packet (field_cursor - 48) = Inr udp"
    and "octets (length udp) < 65536"
    and "selected_shape ids (fst (decompressed_fields ! nat (rule_field_position - 4)))
           = Some shape"
    and "src_id = (case shape of IPv6_pseudo_header \<Rightarrow> IPv6_SRC_ADDRESS ids
                               | IPv4_pseudo_header \<Rightarrow> IPv4_SRC_ADDRESS ids)"
    and "1 \<le> i" and "i \<le> nat (rule_field_position - 4)"
    and "fst (decompressed_fields ! i) = src_id"
    and "\<forall>j. i < j \<and> j \<le> nat (rule_field_position - 4)
           \<longrightarrow> fst (decompressed_fields ! j) \<noteq> src_id"
    and "Suc i < length decompressed_fields"
  shows "pseudo_header ids (fst (decompressed_fields ! nat (rule_field_position - 4)))
           (map fst decompressed_fields) (map snd decompressed_fields)
           (rule_field_position - 4) (octets (length udp))
         = Inr (spec_ipv4_pseudo_header (snd (decompressed_fields ! i))
                  (snd (decompressed_fields ! Suc i)) (octets (length udp)))
       \<and> compute_checksum ids packet field_cursor decompressed_fields rule_field_position
         = checksum_of (spec_ipv4_pseudo_header (snd (decompressed_fields ! i))
                          (snd (decompressed_fields ! Suc i)) (octets (length udp))) udp"
proof -
  let ?p = "rule_field_position - 4"
  let ?fids = "map fst decompressed_fields" and ?fvals = "map snd decompressed_fields"
  let ?last = "fst (decompressed_fields ! nat ?p)"
  have p0: "0 \<le> ?p" using assms(1) by simp
  have pl: "?p < int (length ?fids)" using assms(2) by simp
  have np: "nat ?p < length decompressed_fields" using assms(1,2) by simp
  have il: "i < length decompressed_fields" using assms(11) by simp
  have idx: "py_index ?fids ?p = Inr ?last"
    using p0 assms(2) np by (simp add: py_index_def)
  have w: "(case shape of IPv6_pseudo_header \<Rightarrow> 4 | IPv4_pseudo_header \<Rightarrow> 2) = (2::nat)
         \<or> (case shape of IPv6_pseudo_header \<Rightarrow> 4 | IPv4_pseudo_header \<Rightarrow> 2) = (4::nat)"
    by (cases shape) simp_all
  have fi: "?fids ! i = src_id" using assms(9) il by simp
  have later: "\<forall>j. i < j \<and> j \<le> nat ?p \<longrightarrow> ?fids ! j \<noteq> src_id"
  proof (intro allI impI)
    fix j assume j: "i < j \<and> j \<le> nat ?p"
    then have "j < length decompressed_fields" using np by simp
    then have "?fids ! j = fst (decompressed_fields ! j)" by simp
    with assms(10) j show "?fids ! j \<noteq> src_id" by simp
  qed
  have "build_pseudo_header src_id
          (case shape of IPv6_pseudo_header \<Rightarrow> 4 | IPv4_pseudo_header \<Rightarrow> 2)
          ?fids ?fvals ?p (octets (length udp))
        = Inr (spec_ipv4_pseudo_header (?fvals ! i) (?fvals ! Suc i) (octets (length udp)))"
    using p0 pl _ assms(7) assms(8) fi later _ octets_nonneg assms(4) w
    by (rule build_pseudo_header_located) (simp_all add: assms(11))
  then have ph: "pseudo_header ids ?last ?fids ?fvals ?p (octets (length udp))
        = Inr (spec_ipv4_pseudo_header (snd (decompressed_fields ! i))
                  (snd (decompressed_fields ! Suc i)) (octets (length udp)))"
    using il assms(11) by (simp add: selected_shape_cases [OF assms(5)] assms(6))
  have "compute_checksum ids packet field_cursor decompressed_fields rule_field_position
         = checksum_of (spec_ipv4_pseudo_header (snd (decompressed_fields ! i))
                          (snd (decompressed_fields ! Suc i)) (octets (length udp))) udp"
    by (simp only: compute_checksum_steps [OF idx assms(3)] ph bind_err_Inr)
  with ph show ?thesis by simp
qed

theorem pseudo_header_built_witness:
  "compute_checksum example_ids udp_datagram 48 ipv6_fields 6
     = checksum_of (spec_ipv4_pseudo_header ipv6_source ipv6_destination 9) udp_datagram \<and>
   length (spec_ipv4_pseudo_header ipv6_source ipv6_destination 9) = 288"
proof -
  have len: "length ipv6_fields = 6" by (simp add: ipv6_fields_def)
  have oc: "octets (length udp_datagram) = 9"
    by (simp add: octets_def udp_datagram_def bits_of_bytes_def)
  have h1: "4 \<le> (6::int)" by simp
  have h2: "6 - 4 < int (length ipv6_fields)" unfolding len by simp
  have h3: "slice_from udp_datagram (48 - 48) = Inr udp_datagram"
    by (simp add: slice_from_def slice_def)
  have h4: "octets (length udp_datagram) < 65536" unfolding oc by simp
  have h5: "selected_shape example_ids (fst (ipv6_fields ! nat (6 - 4)))
              = Some IPv6_pseudo_header"
    by (simp add: selected_shape_def example_ids_def ipv6_fields_def)
  have h6: "''IPv6:Source Address'' =
              (case IPv6_pseudo_header of IPv6_pseudo_header \<Rightarrow> IPv6_SRC_ADDRESS example_ids
                                        | IPv4_pseudo_header \<Rightarrow> IPv4_SRC_ADDRESS example_ids)"
    by (simp add: example_ids_def)
  have h7: "1 \<le> (1::nat)" by simp
  have h8: "1 \<le> nat (6 - 4)" by simp
  have h9: "fst (ipv6_fields ! 1) = ''IPv6:Source Address''"
    by (simp add: ipv6_fields_def)
  have h10: "\<forall>j. 1 < j \<and> j \<le> nat (6 - 4)
                 \<longrightarrow> fst (ipv6_fields ! j) \<noteq> ''IPv6:Source Address''"
  proof (intro allI impI)
    fix j :: nat assume "1 < j \<and> j \<le> nat (6 - 4)"
    then have "j = 2" by simp
    then show "fst (ipv6_fields ! j) \<noteq> ''IPv6:Source Address''"
      by (simp add: ipv6_fields_def)
  qed
  have h11: "Suc 1 < length ipv6_fields" unfolding len by simp
  have s: "snd (ipv6_fields ! 1) = ipv6_source"
    and d: "snd (ipv6_fields ! Suc 1) = ipv6_destination"
    by (simp_all add: ipv6_fields_def)
  from pseudo_header_built [OF h1 h2 h3 h4 h5 h6 h7 h8 h9 h10 h11]
  have "compute_checksum example_ids udp_datagram 48 ipv6_fields 6
     = checksum_of (spec_ipv4_pseudo_header (snd (ipv6_fields ! 1))
         (snd (ipv6_fields ! Suc 1)) (octets (length udp_datagram))) udp_datagram"
    by (rule conjunct2)
  then have "compute_checksum example_ids udp_datagram 48 ipv6_fields 6
     = checksum_of (spec_ipv4_pseudo_header ipv6_source ipv6_destination 9) udp_datagram"
    by (simp only: s d oc)
  moreover have "length (spec_ipv4_pseudo_header ipv6_source ipv6_destination 9) = 288"
    by (simp add: spec_ipv4_pseudo_header_def ipv6_source_def ipv6_destination_def
        bits_of_bytes_def)
  ultimately show ?thesis by (rule conjI)
qed

text \<open>
  C3 as stated fails for IPv6: the pseudo-header built for the IPv6 example holds the
  16 bits \<open>0x0011\<close> followed by the UDP length on 16 bits after the two addresses, 288
  bits in all, and not the UDP length on 32 bits, 24 zero bits and the next header, 320
  bits in all.
\<close>

theorem ipv6_pseudo_header_counterexample:
  "pseudo_header example_ids ''IPv6:Destination Address'' (map fst ipv6_fields)
     (map snd ipv6_fields) 2 9
   = Inr (ipv6_source @ ipv6_destination @ int_bits 8 0 @ int_bits 8 17 @ int_bits 16 9) \<and>
   pseudo_header example_ids ''IPv6:Destination Address'' (map fst ipv6_fields)
     (map snd ipv6_fields) 2 9
   \<noteq> Inr (spec_ipv6_pseudo_header ipv6_source ipv6_destination 9) \<and>
   length (ipv6_source @ ipv6_destination @ int_bits 8 0 @ int_bits 8 17 @ int_bits 16 9)
     = 288 \<and>
   length (spec_ipv6_pseudo_header ipv6_source ipv6_destination 9) = 320"
proof -
  have l1: "length (ipv6_source @ ipv6_destination @ int_bits 8 0 @ int_bits 8 17
              @ int_bits 16 9) = 288"
    by (simp add: ipv6_source_def ipv6_destination_def bits_of_bytes_def)
  have l2: "length (spec_ipv6_pseudo_header ipv6_source ipv6_destination 9) = 320"
    by (simp add: spec_ipv6_pseudo_header_def ipv6_source_def ipv6_destination_def
        bits_of_bytes_def)
  have "ipv6_source @ ipv6_destination @ int_bits 8 0 @ int_bits 8 17
              @ int_bits 16 9 \<noteq> spec_ipv6_pseudo_header ipv6_source ipv6_destination 9"
  proof
    assume "ipv6_source @ ipv6_destination @ int_bits 8 0 @ int_bits 8 17
              @ int_bits 16 9 = spec_ipv6_pseudo_header ipv6_source ipv6_destination 9"
    then have "length (ipv6_source @ ipv6_destination @ int_bits 8 0 @ int_bits 8 17
              @ int_bits 16 9) = length (spec_ipv6_pseudo_header ipv6_source ipv6_destination 9)"
      by (rule arg_cong)
    then show False unfolding l1 l2 by simp
  qed
  with ipv6_pseudo_header_example l1 l2 show ?thesis by (simp only: sum.inject) simp
qed

section \<open>The selection of the pseudo-header shape\<close>

lemma find_rev_take:
  assumes "p < length xs" and "P (xs ! p)" and "p < n"
    and "\<forall>j. p < j \<and> j < n \<and> j < length xs \<longrightarrow> \<not> P (xs ! j)"
  shows "find P (rev (take n xs)) = Some (xs ! p)"
  using assms(3,4)
proof (induction n)
  case 0
  then show ?case by simp
next
  case (Suc n)
  show ?case
  proof (cases "n < length xs")
    case False
    then have e: "take (Suc n) xs = take n xs" by simp
    from False assms(1) have "p < n" by simp
    moreover have "\<forall>j. p < j \<and> j < n \<and> j < length xs \<longrightarrow> \<not> P (xs ! j)"
      using Suc.prems(2) by auto
    ultimately show ?thesis using Suc.IH e by simp
  next
    case True
    then have e: "rev (take (Suc n) xs) = xs ! n # rev (take n xs)"
      by (simp add: take_Suc_conv_app_nth)
    show ?thesis
    proof (cases "n = p")
      case True
      with e assms(2) show ?thesis by simp
    next
      case False
      with Suc.prems(1) have pn: "p < n" by simp
      with Suc.prems(2) True have "\<not> P (xs ! n)" by auto
      moreover have "\<forall>j. p < j \<and> j < n \<and> j < length xs \<longrightarrow> \<not> P (xs ! j)"
        using Suc.prems(2) by auto
      ultimately show ?thesis using Suc.IH pn e by simp
    qed
  qed
qed

lemma selected_shape_iff:
  "(selected_shape ids fid = Some IPv6_pseudo_header) = str_contains (IPv6_HEADER_ID ids) fid \<and>
   (selected_shape ids fid = Some IPv4_pseudo_header)
     = (str_contains (IPV4_HEADER_ID ids) fid \<and> \<not> str_contains (IPv6_HEADER_ID ids) fid) \<and>
   (selected_shape ids fid = None)
     = (\<not> str_contains (IPv6_HEADER_ID ids) fid \<and> \<not> str_contains (IPV4_HEADER_ID ids) fid)"
  by (simp add: selected_shape_def)

lemma pseudo_header_by_shape:
  "pseudo_header ids fid fids fvals p len =
     (case selected_shape ids fid of
        Some IPv6_pseudo_header \<Rightarrow> build_pseudo_header (IPv6_SRC_ADDRESS ids) 4 fids fvals p len
      | Some IPv4_pseudo_header \<Rightarrow> build_pseudo_header (IPv4_SRC_ADDRESS ids) 2 fids fvals p len
      | None \<Rightarrow> Inl UnboundLocalError)"
  by (simp add: selected_shape_def pseudo_header_def)

lemma spec_scan_agrees:
  assumes "4 \<le> pos" and "pos - 4 < int (length fids)"
    and "selected_shape ids (fids ! nat (pos - 4)) \<noteq> None"
    and "\<forall>j. nat (pos - 4) < j \<and> j < length fids \<longrightarrow> selected_shape ids (fids ! j) = None"
  shows "spec_selected_shape ids fids pos = selected_shape ids (fids ! nat (pos - 4))"
proof -
  let ?P = "\<lambda>field_id. str_contains (IPv6_HEADER_ID ids) field_id
                        \<or> str_contains (IPV4_HEADER_ID ids) field_id"
  let ?p = "nat (pos - 4)"
  have P: "?P fid = (selected_shape ids fid \<noteq> None)" for fid
    by (simp add: selected_shape_def)
  have "find ?P (rev (take (nat (pos + 1)) fids)) = Some (fids ! ?p)"
  proof (rule find_rev_take)
    show "?p < length fids" using assms(1,2) by simp
    show "?P (fids ! ?p)" unfolding P by (rule assms(3))
    show "?p < nat (pos + 1)" using assms(1) by simp
    show "\<forall>j. ?p < j \<and> j < nat (pos + 1) \<and> j < length fids \<longrightarrow> \<not> ?P (fids ! j)"
    proof (intro allI impI)
      fix j assume "?p < j \<and> j < nat (pos + 1) \<and> j < length fids"
      then have "selected_shape ids (fids ! j) = None" using assms(4) by simp
      then show "\<not> ?P (fids ! j)" by (simp add: P)
    qed
  qed
  then have "spec_enclosing_field ids fids pos = Some (fids ! ?p)"
    by (simp add: spec_enclosing_field_def)
  then show ?thesis
    using assms(3) by (auto simp: spec_selected_shape_def selected_shape_def split: if_splits)
qed

text \<open>
  C5, as amended. \<open>_compute_checksum\<close> does not scan: it reads the id of the one field at
  index \<open>rule_field_position - 4\<close> of \<open>decompressed_fields\<close>. The IPv6 shape is chosen
  exactly when that id contains the IPv6 marker, the IPv4 shape exactly when it contains
  the IPv4 marker and not the IPv6 marker, and no shape (the call fails) otherwise. When
  \<open>rule_field_position\<close> is at least 4, that id selects a shape and the id of no later
  field contains a marker, the shape chosen is the one that a backward scan for the last
  network-layer field gives.
\<close>

theorem shape_from_fixed_offset:
  assumes "py_index (map fst decompressed_fields) (rule_field_position - 4) = Inr last_field"
    and "slice_from packet (field_cursor - 48) = Inr udp"
  shows "(selected_shape ids last_field = Some IPv6_pseudo_header)
           = str_contains (IPv6_HEADER_ID ids) last_field
       \<and> (selected_shape ids last_field = Some IPv4_pseudo_header)
           = (str_contains (IPV4_HEADER_ID ids) last_field
              \<and> \<not> str_contains (IPv6_HEADER_ID ids) last_field)
       \<and> compute_checksum ids packet field_cursor decompressed_fields rule_field_position
           = (case selected_shape ids last_field of
                Some IPv6_pseudo_header \<Rightarrow>
                  bind_err (build_pseudo_header (IPv6_SRC_ADDRESS ids) 4
                              (map fst decompressed_fields) (map snd decompressed_fields)
                              (rule_field_position - 4) (octets (length udp)))
                    (\<lambda>ph. checksum_of ph udp)
              | Some IPv4_pseudo_header \<Rightarrow>
                  bind_err (build_pseudo_header (IPv4_SRC_ADDRESS ids) 2
                              (map fst decompressed_fields) (map snd decompressed_fields)
                              (rule_field_position - 4) (octets (length udp)))
                    (\<lambda>ph. checksum_of ph udp)
              | None \<Rightarrow> Inl UnboundLocalError)
       \<and> (4 \<le> rule_field_position \<and> selected_shape ids last_field \<noteq> None
            \<and> (\<forall>j. nat (rule_field_position - 4) < j \<and> j < length decompressed_fields
                   \<longrightarrow> selected_shape ids (fst (decompressed_fields ! j)) = None)
          \<longrightarrow> spec_selected_shape ids (map fst decompressed_fields) rule_field_position
                = selected_shape ids last_field)"
proof -
  let ?fids = "map fst decompressed_fields"
  have c: "compute_checksum ids packet field_cursor decompressed_fields rule_field_position
           = (case selected_shape ids last_field of
                Some IPv6_pseudo_header \<Rightarrow>
                  bind_err (build_pseudo_header (IPv6_SRC_ADDRESS ids) 4
                              (map fst decompressed_fields) (map snd decompressed_fields)
                              (rule_field_position - 4) (octets (length udp)))
                    (\<lambda>ph. checksum_of ph udp)
              | Some IPv4_pseudo_header \<Rightarrow>
                  bind_err (build_pseudo_header (IPv4_SRC_ADDRESS ids) 2
                              (map fst decompressed_fields) (map snd decompressed_fields)
                              (rule_field_position - 4) (octets (length udp)))
                    (\<lambda>ph. checksum_of ph udp)
              | None \<Rightarrow> Inl UnboundLocalError)"
  proof (cases "selected_shape ids last_field")
    case None
    then show ?thesis
      by (simp only: compute_checksum_steps [OF assms] pseudo_header_by_shape
          option.case bind_err_Inl)
  next
    case (Some shape)
    then show ?thesis
      by (cases shape)
        (simp_all only: compute_checksum_steps [OF assms] pseudo_header_by_shape
          option.case pseudo_header_shape.case)
  qed
  have s: "spec_selected_shape ids ?fids rule_field_position = selected_shape ids last_field"
    if a: "4 \<le> rule_field_position" and b: "selected_shape ids last_field \<noteq> None"
      and n: "\<forall>j. nat (rule_field_position - 4) < j \<and> j < length decompressed_fields
                   \<longrightarrow> selected_shape ids (fst (decompressed_fields ! j)) = None"
  proof -
    from assms(1) a have r: "rule_field_position - 4 < int (length ?fids)"
      and l: "last_field = ?fids ! nat (rule_field_position - 4)"
      by (auto simp: py_index_def split: if_splits)
    have "\<forall>j. nat (rule_field_position - 4) < j \<and> j < length ?fids
            \<longrightarrow> selected_shape ids (?fids ! j) = None"
      using n by simp
    with a r b [unfolded l] show ?thesis
      unfolding l by (intro spec_scan_agrees)
  qed
  have i6: "(selected_shape ids last_field = Some IPv6_pseudo_header)
           = str_contains (IPv6_HEADER_ID ids) last_field"
    by (rule conjunct1 [OF selected_shape_iff])
  have i4: "(selected_shape ids last_field = Some IPv4_pseudo_header)
           = (str_contains (IPV4_HEADER_ID ids) last_field
              \<and> \<not> str_contains (IPv6_HEADER_ID ids) last_field)"
    by (rule conjunct1 [OF conjunct2 [OF selected_shape_iff]])
  have s': "4 \<le> rule_field_position \<and> selected_shape ids last_field \<noteq> None
            \<and> (\<forall>j. nat (rule_field_position - 4) < j \<and> j < length decompressed_fields
                   \<longrightarrow> selected_shape ids (fst (decompressed_fields ! j)) = None)
          \<longrightarrow> spec_selected_shape ids (map fst decompressed_fields) rule_field_position
                = selected_shape ids last_field"
  proof (intro impI, elim conjE)
    assume "4 \<le> rule_field_position" and "selected_shape ids last_field \<noteq> None"
      and "\<forall>j. nat (rule_field_position - 4) < j \<and> j < length decompressed_fields
                   \<longrightarrow> selected_shape ids (fst (decompressed_fields ! j)) = None"
    then show "spec_selected_shape ids (map fst decompressed_fields) rule_field_position
                = selected_shape ids last_field"
      by (rule s)
  qed
  show ?thesis
    by (rule conjI [OF i6 conjI [OF i4 conjI [OF c s']]])
qed

theorem shape_from_fixed_offset_witness:
  "py_index (map fst ipv6_fields) (6 - 4) = Inr ''IPv6:Destination Address'' \<and>
   slice_from udp_datagram (48 - 48) = Inr udp_datagram \<and>
   selected_shape example_ids ''IPv6:Destination Address'' = Some IPv6_pseudo_header \<and>
   str_contains (IPv6_HEADER_ID example_ids) ''IPv6:Destination Address'' \<and>
   spec_selected_shape example_ids (map fst ipv6_fields) 6 = Some IPv6_pseudo_header \<and>
   compute_checksum example_ids udp_datagram 48 ipv6_fields 6
     = bind_err (build_pseudo_header (IPv6_SRC_ADDRESS example_ids) 4
                   (map fst ipv6_fields) (map snd ipv6_fields) (6 - 4)
                   (octets (length udp_datagram)))
         (\<lambda>ph. checksum_of ph udp_datagram)"
proof -
  have i: "py_index (map fst ipv6_fields) (6 - 4) = Inr ''IPv6:Destination Address''"
    by (simp add: py_index_def ipv6_fields_def)
  have s: "slice_from udp_datagram (48 - 48) = Inr udp_datagram"
    by (simp add: slice_from_def slice_def)
  have c: "str_contains (IPv6_HEADER_ID example_ids) ''IPv6:Destination Address''"
    by (simp add: example_ids_def)
  have sp: "spec_selected_shape example_ids (map fst ipv6_fields) 6 = Some IPv6_pseudo_header"
    by code_simp
  note t = shape_from_fixed_offset [OF i s, of example_ids]
  from t c have sel: "selected_shape example_ids ''IPv6:Destination Address''
                        = Some IPv6_pseudo_header"
    by (simp only: simp_thms)
  from t have "compute_checksum example_ids udp_datagram 48 ipv6_fields 6
     = (case selected_shape example_ids ''IPv6:Destination Address'' of
                Some IPv6_pseudo_header \<Rightarrow>
                  bind_err (build_pseudo_header (IPv6_SRC_ADDRESS example_ids) 4
                              (map fst ipv6_fields) (map snd ipv6_fields)
                              (6 - 4) (octets (length udp_datagram)))
                    (\<lambda>ph. checksum_of ph udp_datagram)
              | Some IPv4_pseudo_header \<Rightarrow>
                  bind_err (build_pseudo_header (IPv4_SRC_ADDRESS example_ids) 2
                              (map fst ipv6_fields) (map snd ipv6_fields)
                              (6 - 4) (octets (length udp_datagram)))
                    (\<lambda>ph. checksum_of ph udp_datagram)
              | None \<Rightarrow> Inl UnboundLocalError)"
    by (rule conjunct1 [OF conjunct2 [OF conjunct2]])
  then have r: "compute_checksum example_ids udp_datagram 48 ipv6_fields 6
     = bind_err (build_pseudo_header (IPv6_SRC_ADDRESS example_ids) 4
                   (map fst ipv6_fields) (map snd ipv6_fields) (6 - 4)
                   (octets (length udp_datagram)))
         (\<lambda>ph. checksum_of ph udp_datagram)"
    by (simp only: sel option.case pseudo_header_shape.case)
  show ?thesis
    by (rule conjI [OF i conjI [OF s conjI [OF sel conjI [OF c conjI [OF sp r]]]]])
qed

text \<open>
  C5 as stated fails: with a field of another layer between the IPv6 fields and the UDP
  fields, a backward scan from the checksum field finds an IPv6 field and so names the
  IPv6 shape, while \<open>_compute_checksum\<close> reads the field four positions before the
  checksum field, finds neither marker in its id, chooses no shape and fails.
\<close>

theorem shape_scan_counterexample:
  "spec_enclosing_field example_ids (map fst ipv6_gap_fields) 7
     = Some ''IPv6:Destination Address'' \<and>
   spec_selected_shape example_ids (map fst ipv6_gap_fields) 7 = Some IPv6_pseudo_header \<and>
   py_index (map fst ipv6_gap_fields) (7 - 4) = Inr ''Shim:Tag'' \<and>
   selected_shape example_ids ''Shim:Tag'' = None \<and>
   compute_checksum example_ids udp_datagram 48 ipv6_gap_fields 7 = Inl UnboundLocalError"
  by code_simp

section \<open>Further properties\<close>

text \<open>
  The packet expected by \<^verbatim>\<open>test_decompress\<close> has 144 octets: an IPv6 header of 40 octets
  whose payload-length field (octets 4 and 5) says 104, followed from octet 40 by the UDP
  header and first payload octet of \<open>udp_example\<close>.
\<close>

theorem valid_stack_packet_octets:
  "length valid_stack_packet = 144 \<and>
   valid_stack_packet ! 4 * 256 + valid_stack_packet ! 5 = 104 \<and>
   bits_of_bytes (take 9 (drop 40 valid_stack_packet)) = udp_example"
  by (simp add: valid_stack_packet_def udp_example_def)

text \<open>
  \<open>_compute_length\<close> raises \<open>OverflowError\<close> whenever the UDP header and payload make 65536
  octets or more.
\<close>

theorem compute_length_overflows:
  assumes "32 \<le> field_cursor" and "field_cursor \<le> int (length packet)"
    and "65536 \<le> octets (length packet - nat (field_cursor - 32))"
  shows "compute_length packet field_cursor fs pos = Inl OverflowError"
  using assms by (rule compute_length_overflow)

theorem compute_length_overflows_witness:
  "(32::int) \<le> 64 \<and> (64::int) \<le> int (length oversized_packet) \<and>
   65536 \<le> octets (length oversized_packet - nat (64 - 32)) \<and>
   compute_length oversized_packet 64 [] 2 = Inl OverflowError"
proof -
  have h1: "(32::int) \<le> 64" by simp
  have h2: "(64::int) \<le> int (length oversized_packet)"
    by (simp add: oversized_packet_def)
  have h3: "65536 \<le> octets (length oversized_packet - nat (64 - 32))"
    by (simp add: oversized_packet_def octets_def)
  from compute_length_overflows [OF h1 h2 h3] h1 h2 h3 show ?thesis by simp
qed

lemma next_offset_absent: "x \<notin> set ys \<Longrightarrow> next_offset x ys k = Inl StopIteration"
  by (induction ys arbitrary: k) auto

lemma py_slice_down_set:
  assumes "0 \<le> p" and "p < int (length xs)" and "x \<in> set (py_slice_down xs p)"
  shows "\<exists>j. 1 \<le> j \<and> j \<le> nat p \<and> xs ! j = x"
proof -
  from assms(3) obtain m where m: "m < length (py_slice_down xs p)"
    and x: "py_slice_down xs p ! m = x"
    by (auto simp: in_set_conv_nth)
  from m have mp: "m < nat p" using assms(1,2) by (simp add: py_slice_down_length)
  then have "py_slice_down xs p ! m = xs ! (nat p - m)"
    using assms(1,2) by (intro py_slice_down_nth)
  with x mp show ?thesis by (intro exI [of _ "nat p - m"]) auto
qed

text \<open>
  The field at index 0 of \<open>decompressed_fields\<close> is never looked at when the source
  address is located (\<^verbatim>\<open>fields_ids[p:0:-1]\<close> stops before index 0): when no field at an
  index from 1 to \<open>rule_field_position - 4\<close> carries the source-address id of the selected
  shape, \<open>_compute_checksum\<close> raises \<open>StopIteration\<close>, whatever the id at index 0 is.
\<close>

theorem source_address_at_index_0_not_found:
  assumes "4 \<le> rule_field_position"
    and "rule_field_position - 4 < int (length decompressed_fields)"
    and "slice_from packet (field_cursor - 48) = Inr udp"
    and "selected_shape ids (fst (decompressed_fields ! nat (rule_field_position - 4)))
           = Some shape"
    and "src_id = (case shape of IPv6_pseudo_header \<Rightarrow> IPv6_SRC_ADDRESS ids
                               | IPv4_pseudo_header \<Rightarrow> IPv4_SRC_ADDRESS ids)"
    and "\<forall>j. 1 \<le> j \<and> j \<le> nat (rule_field_position - 4)
           \<longrightarrow> fst (decompressed_fields ! j) \<noteq> src_id"
  shows "compute_checksum ids packet field_cursor decompressed_fields rule_field_position
           = Inl StopIteration"
proof -
  let ?p = "rule_field_position - 4"
  let ?fids = "map fst decompressed_fields" and ?fvals = "map snd decompressed_fields"
  let ?last = "fst (decompressed_fields ! nat ?p)"
  have p0: "0 \<le> ?p" using assms(1) by simp
  have pl: "?p < int (length ?fids)" using assms(2) by simp
  have np: "nat ?p < length decompressed_fields" using assms(1,2) by simp
  have idx: "py_index ?fids ?p = Inr ?last"
    using p0 assms(2) np by (simp add: py_index_def)
  have "src_id \<notin> set (py_slice_down ?fids ?p)"
  proof
    assume "src_id \<in> set (py_slice_down ?fids ?p)"
    with p0 pl have "\<exists>j. 1 \<le> j \<and> j \<le> nat ?p \<and> ?fids ! j = src_id"
      by (rule py_slice_down_set)
    then obtain j where j: "1 \<le> j" "j \<le> nat ?p" and e: "?fids ! j = src_id"
      by (elim exE conjE)
    from j np have "?fids ! j = fst (decompressed_fields ! j)" by simp
    with assms(6) j e show False by simp
  qed
  then have "next_offset src_id (py_slice_down ?fids ?p) 0 = Inl StopIteration"
    by (rule next_offset_absent)
  then have "build_pseudo_header src_id w ?fids ?fvals ?p len = Inl StopIteration" for w len
    by (simp add: build_pseudo_header_def bind_err_Inl)
  then have "pseudo_header ids ?last ?fids ?fvals ?p (octets (length udp)) = Inl StopIteration"
    unfolding selected_shape_cases [OF assms(4)] assms(5) .
  then show ?thesis
    by (simp only: compute_checksum_steps [OF idx assms(3)] bind_err_Inl)
qed

theorem source_address_at_index_0_not_found_witness:
  "fst (ipv6_first_fields ! 0) = ''IPv6:Source Address'' \<and>
   compute_checksum example_ids udp_datagram 48 ipv6_first_fields 5 = Inl StopIteration"
proof -
  have len: "length ipv6_first_fields = 5" by (simp add: ipv6_first_fields_def)
  have h1: "4 \<le> (5::int)" by simp
  have h2: "5 - 4 < int (length ipv6_first_fields)" unfolding len by simp
  have h3: "slice_from udp_datagram (48 - 48) = Inr udp_datagram"
    by (simp add: slice_from_def slice_def)
  have h4: "selected_shape example_ids (fst (ipv6_first_fields ! nat (5 - 4)))
              = Some IPv6_pseudo_header"
    by (simp add: selected_shape_def example_ids_def ipv6_first_fields_def)
  have h5: "''IPv6:Source Address'' =
              (case IPv6_pseudo_header of IPv6_pseudo_header \<Rightarrow> IPv6_SRC_ADDRESS example_ids
                                        | IPv4_pseudo_header \<Rightarrow> IPv4_SRC_ADDRESS example_ids)"
    by (simp add: example_ids_def)
  have h6: "\<forall>j. 1 \<le> j \<and> j \<le> nat (5 - 4)
              \<longrightarrow> fst (ipv6_first_fields ! j) \<noteq> ''IPv6:Source Address''"
  proof (intro allI impI)
    fix j :: nat assume "1 \<le> j \<and> j \<le> nat (5 - 4)"
    then have "j = 1" by simp
    then show "fst (ipv6_first_fields ! j) \<noteq> ''IPv6:Source Address''"
      by (simp add: ipv6_first_fields_def)
  qed
  have "fst (ipv6_first_fields ! 0) = ''IPv6:Source Address''"
    by (simp add: ipv6_first_fields_def)
  then show ?thesis
    using source_address_at_index_0_not_found [OF h1 h2 h3 h4 h5 h6] by (rule conjI)
qed

end
